theory Spec2Isabelle
  imports Main "HOL-Library.Word" "HOL-Library.Sublist"
begin

unbundle bit_operations_syntax

section \<open>JavaScript strings\<close>

text \<open>
  A JavaScript string is a sequence of UTF-16 code units. String literals of the
  source are written \<open>js ''...''\<close>.
\<close>

type_synonym code_unit = "16 word"
type_synonym jsstring = "code_unit list"

definition js :: "string \<Rightarrow> jsstring" where
  "js s = map of_char s"

text \<open>\<^verbatim>\<open>s.includes(w)\<close>: \<open>w\<close> occurs in \<open>s\<close> as a contiguous run of code units.\<close>

fun js_includes :: "jsstring \<Rightarrow> jsstring \<Rightarrow> bool" where
  "js_includes [] w = (w = [])"
| "js_includes (x # xs) w = (prefix w (x # xs) \<or> js_includes xs w)"

text \<open>
  Line terminators and white space of ECMAScript (\<^verbatim>\<open>trim\<close> strips both; \<^verbatim>\<open>.\<close> and
  \<^verbatim>\<open>^\<close> of a regular expression look at line terminators).
\<close>

definition isLineTerminator :: "code_unit \<Rightarrow> bool" where
  "isLineTerminator c = (c = 0x000A \<or> c = 0x000D \<or> c = 0x2028 \<or> c = 0x2029)"

definition isWhiteSpace :: "code_unit \<Rightarrow> bool" where
  "isWhiteSpace c =
     (c = 0x0009 \<or> c = 0x000B \<or> c = 0x000C \<or> c = 0x0020 \<or> c = 0x00A0 \<or> c = 0x1680
      \<or> (0x2000 \<le> c \<and> c \<le> 0x200A) \<or> c = 0x202F \<or> c = 0x205F \<or> c = 0x3000
      \<or> c = 0xFEFF \<or> isLineTerminator c)"

definition trimStart :: "jsstring \<Rightarrow> jsstring" where
  "trimStart s = dropWhile isWhiteSpace s"

definition trimEnd :: "jsstring \<Rightarrow> jsstring" where
  "trimEnd s = rev (dropWhile isWhiteSpace (rev s))"

definition trim :: "jsstring \<Rightarrow> jsstring" where
  "trim s = trimEnd (trimStart s)"

text \<open>
  \<^verbatim>\<open>s.split(sep)\<close>: the pieces of \<open>s\<close> between the occurrences of \<open>sep\<close>, found from
  the left; the empty string gives one empty piece.
\<close>

function split_from :: "jsstring \<Rightarrow> jsstring \<Rightarrow> jsstring \<Rightarrow> jsstring list" where
  "split_from sep acc xs =
     (if xs = [] then [rev acc]
      else if sep \<noteq> [] \<and> prefix sep xs
      then rev acc # split_from sep [] (drop (length sep) xs)
      else split_from sep (hd xs # acc) (tl xs))"
  by pat_completeness auto
termination
  by (relation "measure (\<lambda>(sep, acc, xs). length xs)") auto

declare split_from.simps [simp del]

definition js_split :: "jsstring \<Rightarrow> jsstring \<Rightarrow> jsstring list" where
  "js_split s sep = (if sep = [] then map (\<lambda>c. [c]) s else split_from sep [] s)"

text \<open>
  \<^verbatim>\<open>new Set(xs)\<close> followed by \<^verbatim>\<open>Array.from\<close>: a set keeps its elements in insertion
  order and ignores an element it already has.
\<close>

definition set_add :: "'a \<Rightarrow> 'a list \<Rightarrow> 'a list" where
  "set_add x acc = (if x \<in> set acc then acc else acc @ [x])"

definition array_from_set :: "'a list \<Rightarrow> 'a list" where
  "array_from_set xs = fold set_add xs []"

text \<open>
  \<^verbatim>\<open>toLowerCase\<close> is a builtin of the runtime whose Unicode case mapping is not part
  of the repository: the functions that use it take it as the parameter
  \<open>toLowerCase\<close>. \<open>asciiLower\<close> is its restriction to ASCII letters, used to run
  examples.
\<close>

definition asciiLower :: "jsstring \<Rightarrow> jsstring" where
  "asciiLower s = map (\<lambda>c. if 65 \<le> c \<and> c \<le> 90 then c + 32 else c) s"

section \<open>Sync session status (sync/mutagen.ts)\<close>

datatype status =
  Watching | Scanning | Staging | Reconciling | Saving | Disconnected | Halted | Unknown

text \<open>
  \<^verbatim>\<open>parseSessionStatus(status: string | undefined)\<close>. \<open>None\<close> is \<^verbatim>\<open>undefined\<close>;
  \<^verbatim>\<open>!status\<close> holds for \<^verbatim>\<open>undefined\<close> and for the empty string.
\<close>

definition parseSessionStatus :: "(jsstring \<Rightarrow> jsstring) \<Rightarrow> jsstring option \<Rightarrow> status" where
  "parseSessionStatus toLowerCase status =
     (case status of
        None \<Rightarrow> Unknown
      | Some s \<Rightarrow>
          if s = [] then Unknown
          else
            let statusLower = toLowerCase s in
            if js_includes statusLower (js ''watching'') then Watching
            else if js_includes statusLower (js ''scanning'') then Scanning
            else if js_includes statusLower (js ''staging'') then Staging
            else if js_includes statusLower (js ''reconciling'') then Reconciling
            else if js_includes statusLower (js ''saving'') then Saving
            else if js_includes statusLower (js ''halted'') then Halted
            else if js_includes statusLower (js ''disconnected'') then Disconnected
            else Unknown)"

text \<open>
  The priority order as the specification words it: the keywords with the status each one
  stands for, earliest first.
\<close>

definition status_priority :: "(jsstring \<times> status) list" where
  "status_priority =
     [(js ''watching'', Watching), (js ''scanning'', Scanning), (js ''staging'', Staging),
      (js ''reconciling'', Reconciling), (js ''saving'', Saving), (js ''halted'', Halted),
      (js ''disconnected'', Disconnected)]"

definition classify_by_priority :: "jsstring \<Rightarrow> status" where
  "classify_by_priority text =
     (case find (\<lambda>(kw, st). js_includes text kw) status_priority of
        Some (kw, st) \<Rightarrow> st
      | None \<Rightarrow> Unknown)"

text \<open>
  \<^verbatim>\<open>simpleHash\<close>. The hash is kept as a 32-bit integer: \<^verbatim>\<open>hash << 5\<close> and
  \<^verbatim>\<open>hash & hash\<close> convert to a signed 32-bit value, and the sum in between is exact, so
  every round is arithmetic modulo \<open>2^32\<close>. \<^verbatim>\<open>Math.abs(hash).toString(36)\<close> prints the
  absolute value of the signed reading with the digits 0-9, a-z.
\<close>

definition hash_step :: "32 word \<Rightarrow> code_unit \<Rightarrow> 32 word" where
  "hash_step hash c = (push_bit 5 hash - hash) + ucast c"

definition digit36 :: "nat \<Rightarrow> code_unit" where
  "digit36 d = js ''0123456789abcdefghijklmnopqrstuvwxyz'' ! d"

function toString36 :: "nat \<Rightarrow> jsstring" where
  "toString36 n =
     (if n < 36 then [digit36 n] else toString36 (n div 36) @ [digit36 (n mod 36)])"
  by pat_completeness auto
termination
  by (relation "measure id") auto

declare toString36.simps [simp del]

definition simpleHash :: "jsstring \<Rightarrow> jsstring" where
  "simpleHash str = toString36 (nat \<bar>sint (fold (\<lambda>c hash. hash_step hash c) str 0)\<bar>)"

text \<open>
  \<^verbatim>\<open>getSyncSessionName\<close>. \<^verbatim>\<open>canonicalPath\<close> (utils/paths, which reads the file system)
  is not among the sources and is a parameter.
\<close>

definition getSyncSessionName :: "(jsstring \<Rightarrow> jsstring) \<Rightarrow> jsstring \<Rightarrow> jsstring" where
  "getSyncSessionName canonicalPath localPath =
     (let hash = simpleHash (canonicalPath localPath) in js ''haven-'' @ hash)"

section \<open>Driving the sync engine (sync/mutagen.ts)\<close>

datatype error = Error jsstring

record proc_result =
  exitCode :: int
  stdout :: jsstring
  stderr :: jsstring

text \<open>
  The engine as \<^verbatim>\<open>runMutagen\<close> meets it. \<^verbatim>\<open>ensureMutagenInstalled\<close> (sync/download) is
  not among the sources: it gives the path of the binary or throws. \<open>spawn\<close> is the
  answer of the subprocess to an argument vector (exit code and the two output
  streams); the environment of the subprocess only names the engine's data directory.
  A subprocess that cannot be started is not part of this model.
\<close>

record engine =
  ensureMutagenInstalled :: "error + jsstring"
  spawn :: "jsstring list \<Rightarrow> proc_result"

definition runMutagen :: "engine \<Rightarrow> jsstring list \<Rightarrow> error + proc_result" where
  "runMutagen eng args =
     (case ensureMutagenInstalled eng of
        Inl e \<Rightarrow> Inl e
      | Inr mutagenPath \<Rightarrow>
          let r = spawn eng (mutagenPath # args) in
          Inr \<lparr>exitCode = exitCode r, stdout = trim (stdout r), stderr = trim (stderr r)\<rparr>)"

definition stopSync :: "(jsstring \<Rightarrow> jsstring) \<Rightarrow> engine \<Rightarrow> jsstring \<Rightarrow> error + unit" where
  "stopSync canonicalPath eng localPath =
     (let sessionName = getSyncSessionName canonicalPath localPath in
      case runMutagen eng [js ''sync'', js ''terminate'', sessionName] of
        Inl e \<Rightarrow> Inl e
      | Inr result \<Rightarrow>
          if exitCode result \<noteq> 0 \<and> \<not> js_includes (stderr result) (js ''does not exist'')
          then Inl (Error (js ''Failed to stop sync: '' @ stderr result))
          else Inr ())"

record SyncStatus =
  status :: status
  conflicts :: "jsstring list"
  errors :: "jsstring list"

text \<open>An element of an array that may be missing (\<^verbatim>\<open>undefined\<close> is \<open>None\<close>).\<close>

definition nth_opt :: "'a list \<Rightarrow> nat \<Rightarrow> 'a option" where
  "nth_opt xs i = (if i < length xs then Some (xs ! i) else None)"

text \<open>
  Numbers of the source are IEEE doubles, which are not modelled. \<^verbatim>\<open>getSyncStatus\<close>
  meets a number in three places: \<^verbatim>\<open>parseInt(s, 10)\<close>, the test \<^verbatim>\<open>n > 0\<close> and the
  conversion of the number to text in a template literal. These builtins of the runtime
  are parameters of the functions that use them, a record over a type \<open>'n\<close> of numbers.
\<close>

record 'n number_builtins =
  parseInt :: "jsstring \<Rightarrow> 'n"
  isPositive :: "'n \<Rightarrow> bool"
  numberText :: "'n \<Rightarrow> jsstring"

text \<open>
  The decimal digits of a natural number and of an integer. This is how a template
  literal prints a number that is an integer below \<open>2^53\<close> in magnitude.
\<close>

function toString10 :: "nat \<Rightarrow> jsstring" where
  "toString10 n =
     (if n < 10 then [48 + of_nat n] else toString10 (n div 10) @ [48 + of_nat (n mod 10)])"
  by pat_completeness auto
termination
  by (relation "measure id") auto

declare toString10.simps [simp del]

definition numberToString :: "int \<Rightarrow> jsstring" where
  "numberToString n = (if n < 0 then js ''-'' @ toString10 (nat (- n)) else toString10 (nat n))"

text \<open>
  The builtins restricted to the integers below \<open>2^53\<close> in magnitude, which a double holds
  exactly, used to run examples: \<open>None\<close> is \<^verbatim>\<open>NaN\<close>, and \<^verbatim>\<open>parseInt\<close> skips leading
  white space, reads an optional sign and then the longest run of decimal digits.
\<close>

definition isDigit :: "code_unit \<Rightarrow> bool" where
  "isDigit c = (48 \<le> c \<and> c \<le> 57)"

definition digits_value :: "jsstring \<Rightarrow> int" where
  "digits_value ds = foldl (\<lambda>n c. 10 * n + (uint c - 48)) 0 ds"

definition small_parseInt :: "jsstring \<Rightarrow> int option" where
  "small_parseInt s =
     (let t = trimStart s;
          negative = (t \<noteq> [] \<and> hd t = 45);
          u = (if t \<noteq> [] \<and> (hd t = 45 \<or> hd t = 43) then tl t else t);
          ds = takeWhile isDigit u
      in if ds = [] then None
         else Some (if negative then - digits_value ds else digits_value ds))"

definition small_numbers :: "int option number_builtins" where
  "small_numbers =
     \<lparr>parseInt = small_parseInt,
      isPositive = (\<lambda>n. case n of None \<Rightarrow> False | Some i \<Rightarrow> 0 < i),
      numberText = (\<lambda>n. case n of None \<Rightarrow> js ''NaN'' | Some i \<Rightarrow> numberToString i)\<rparr>"

text \<open>
  The loop of \<^verbatim>\<open>getSyncStatus\<close> over the lines of the listing: the first line whose
  first field is the session name decides.
\<close>

fun find_session ::
  "(jsstring \<Rightarrow> jsstring) \<Rightarrow> 'n number_builtins \<Rightarrow> jsstring \<Rightarrow> jsstring list \<Rightarrow> SyncStatus" where
  "find_session toLowerCase num sessionName [] =
     \<lparr>status = Disconnected, conflicts = [], errors = []\<rparr>"
| "find_session toLowerCase num sessionName (line # lines) =
     (let parts = js_split line (js ''|'');
          name = nth_opt parts 0;
          statusDesc = nth_opt parts 1;
          conflictCount = nth_opt parts 2;
          alphaProblems = nth_opt parts 3;
          betaProblems = nth_opt parts 4
      in if name = Some sessionName then
           let st = parseSessionStatus toLowerCase statusDesc;
               numConflicts =
                 parseInt num (case conflictCount of
                                 None \<Rightarrow> js ''0''
                               | Some c \<Rightarrow> if c = [] then js ''0'' else c);
               cs = (if isPositive num numConflicts
                     then [numberText num numConflicts @ js '' conflict(s) detected'']
                     else []);
               es1 = (case alphaProblems of
                        None \<Rightarrow> []
                      | Some a \<Rightarrow>
                          if a = [] then [] else filter (\<lambda>p. p \<noteq> []) (js_split a (js '';;'')));
               es2 = (case betaProblems of
                        None \<Rightarrow> []
                      | Some b \<Rightarrow>
                          if b = [] then [] else filter (\<lambda>p. p \<noteq> []) (js_split b (js '';;'')))
           in \<lparr>status = st, conflicts = cs, errors = es1 @ es2\<rparr>
         else find_session toLowerCase num sessionName lines)"

definition status_template :: jsstring where
  "status_template =
     js ''{{range .}}{{.Name}}|{{.Status.Description}}|{{len .Conflicts}}|{{range .Alpha.ScanProblems}}{{.}};;{{end}}|{{range .Beta.ScanProblems}}{{.}};;{{end}}\<newline>{{end}}''"

definition getSyncStatus ::
  "(jsstring \<Rightarrow> jsstring) \<Rightarrow> 'n number_builtins \<Rightarrow> (jsstring \<Rightarrow> jsstring) \<Rightarrow> engine \<Rightarrow> jsstring
   \<Rightarrow> error + SyncStatus" where
  "getSyncStatus toLowerCase num canonicalPath eng localPath =
     (let sessionName = getSyncSessionName canonicalPath localPath in
      case runMutagen eng [js ''sync'', js ''list'', js ''--template'', status_template] of
        Inl e \<Rightarrow> Inl e
      | Inr result \<Rightarrow>
          if exitCode result \<noteq> 0
          then Inr \<lparr>status = Disconnected, conflicts = [], errors = [stderr result]\<rparr>
          else
            let lines = filter (\<lambda>l. l \<noteq> []) (js_split (stdout result) (js ''\<newline>''))
            in Inr (find_session toLowerCase num sessionName lines))"

section \<open>Ignore patterns (sync/ignore.ts)\<close>

definition GITIGNORE_FILE :: jsstring where
  "GITIGNORE_FILE = js ''.gitignore''"

definition DEFAULT_IGNORE_PATTERNS :: "jsstring list" where
  "DEFAULT_IGNORE_PATTERNS =
     [js ''.git/'', js ''node_modules/'', js ''.pnpm-store/'', js ''__pycache__/'',
      js ''*.pyc'', js ''.pytest_cache/'', js ''.mypy_cache/'', js ''dist/'', js ''build/'',
      js ''.next/'', js ''.nuxt/'', js ''.output/'', js ''target/'', js ''.gradle/'',
      js ''.idea/'', js ''*.log'', js ''*.tmp'', js ''*.swp'', js ''*.swo'',
      js ''.DS_Store'', js ''.haven/'']"

definition parseIgnoreFile :: "jsstring \<Rightarrow> jsstring list" where
  "parseIgnoreFile content =
     filter (\<lambda>line. length line > 0 \<and> \<not> prefix (js ''#'') line)
       (map trim (js_split content (js ''\<newline>'')))"

text \<open>
  The file system as the ignore module reads it: a map from the paths of the regular
  files to their contents (\<^verbatim>\<open>existsSync\<close> is definedness, \<^verbatim>\<open>readFileSync\<close> the lookup).
  A path that exists and cannot be read as a file, such as a directory, is not part of
  this model. \<^verbatim>\<open>resolve\<close> of the path module is a parameter.
\<close>

type_synonym file_system = "jsstring \<rightharpoonup> jsstring"

definition loadGitignorePatterns ::
  "(jsstring \<Rightarrow> jsstring \<Rightarrow> jsstring) \<Rightarrow> file_system \<Rightarrow> jsstring \<Rightarrow> jsstring list" where
  "loadGitignorePatterns resolve fs projectRoot =
     (let gitignorePath = resolve projectRoot GITIGNORE_FILE in
      case fs gitignorePath of
        None \<Rightarrow> []
      | Some content \<Rightarrow> parseIgnoreFile content)"

definition getAllIgnorePatterns ::
  "(jsstring \<Rightarrow> jsstring \<Rightarrow> jsstring) \<Rightarrow> file_system \<Rightarrow> jsstring \<Rightarrow> bool \<Rightarrow> jsstring list" where
  "getAllIgnorePatterns resolve fs projectRoot useGitignore =
     (let defaultPatterns = DEFAULT_IGNORE_PATTERNS;
          gitignorePatterns =
            (if useGitignore then loadGitignorePatterns resolve fs projectRoot else [])
      in array_from_set (defaultPatterns @ gitignorePatterns))"

text \<open>
  The example of the specification: a project whose ignore file holds \<open>node_modules/\<close>, a
  pattern of the baseline, and \<open>*.secret\<close>.
\<close>

definition example_project :: file_system where
  "example_project =
     [js ''/proj/.gitignore'' \<mapsto> js ''# local\<newline>node_modules/\<newline>\<newline>  *.secret \<newline>'']"

section \<open>Command line dispatch (index.ts)\<close>

definition RESERVED_COMMANDS :: "jsstring list" where
  "RESERVED_COMMANDS =
     [js ''connect'', js ''disconnect'', js ''status'', js ''help'', js ''--help'', js ''-h'',
      js ''--version'', js ''-V'']"

text \<open>
  \<^verbatim>\<open>ConnectionConfig\<close> of config/store, as the callers use it, and the result of
  \<^verbatim>\<open>findConnection(process.cwd())\<close>: the local path with its stored configuration.
\<close>

record ConnectionConfig =
  config_host :: jsstring
  config_port :: int
  config_user :: jsstring
  config_remotePath :: jsstring
  config_sshAlias :: "jsstring option"

record found_connection =
  found_localPath :: jsstring
  found_config :: ConnectionConfig

text \<open>
  What \<^verbatim>\<open>main\<close> ends up doing. \<open>ShowHelp\<close> is \<^verbatim>\<open>program.help()\<close>, \<open>ParseProgram\<close> is
  \<^verbatim>\<open>program.parseAsync(process.argv)\<close> (the subcommand parser),
  \<open>RunRemote alias config localPath args\<close> is
  \<^verbatim>\<open>runRemote(config.sshAlias, config, localPath, args)\<close>
  and \<open>ExitError msg\<close> is an error message followed by \<^verbatim>\<open>process.exit(1)\<close>.
\<close>

datatype action =
  ShowHelp
| ParseProgram "jsstring list"
| RunRemote jsstring ConnectionConfig jsstring "jsstring list"
| ExitError jsstring

definition handleRemoteCommand :: "found_connection option \<Rightarrow> jsstring list \<Rightarrow> action" where
  "handleRemoteCommand found args =
     (case found of
        None \<Rightarrow> ExitError (js ''Not connected. Run 'haven connect <path>' first.'')
      | Some f \<Rightarrow>
          (case config_sshAlias (found_config f) of
             None \<Rightarrow> ExitError (js ''Invalid connection state. Try reconnecting.'')
           | Some a \<Rightarrow>
               if a = [] then ExitError (js ''Invalid connection state. Try reconnecting.'')
               else RunRemote a (found_config f) (found_localPath f) args))"

text \<open>\<^verbatim>\<open>main\<close>, on \<^verbatim>\<open>args = process.argv.slice(2)\<close>.\<close>

definition main :: "found_connection option \<Rightarrow> jsstring list \<Rightarrow> action" where
  "main found args =
     (case args of
        [] \<Rightarrow> ShowHelp
      | firstArg # rest \<Rightarrow>
          if firstArg = js ''--'' then handleRemoteCommand found rest
          else if firstArg \<noteq> [] \<and> firstArg \<notin> set RESERVED_COMMANDS
                  \<and> \<not> prefix (js ''-'') firstArg
          then handleRemoteCommand found args
          else ParseProgram args)"

text \<open>A stored connection, to run the dispatch on.\<close>

definition example_connection :: found_connection where
  "example_connection =
     \<lparr>found_localPath = js ''/tmp/p'',
      found_config =
        \<lparr>config_host = js ''host'', config_port = 2222, config_user = js ''user'',
         config_remotePath = js ''/config/workspace/p'',
         config_sshAlias = Some (js ''haven-dev'')\<rparr>\<rparr>"

section \<open>SSH keys (ssh/keys.ts)\<close>

definition HAVEN_KEY_NAME :: jsstring where
  "HAVEN_KEY_NAME = js ''haven_ed25519''"

record SshKeyInfo =
  privateKeyPath :: jsstring
  publicKeyPath :: jsstring
  publicKey :: jsstring

record KeyAnalysis =
  key :: SshKeyInfo
  encrypted :: bool
  inAgent :: bool
  usable :: bool

text \<open>
  What the key functions read: the file system (\<^verbatim>\<open>existsSync\<close>, \<^verbatim>\<open>readdirSync\<close>, and
  \<^verbatim>\<open>readFileSync\<close>, where \<open>None\<close> is a read that throws) and the answers of the
  subprocesses: \<open>ssh_keygen_l p\<close> is the output of \<^verbatim>\<open>ssh-keygen -lf p\<close> when it exits
  with zero, \<open>ssh_keygen_y p\<close> tells whether \<^verbatim>\<open>ssh-keygen -y -P "" -f p\<close> exits with
  zero, and \<open>ssh_add_l\<close> is the output of \<^verbatim>\<open>ssh-add -l\<close> when it exits with zero.
  Every function that spawns returns its result together with the argument vectors of
  the subprocesses it has spawned, in order.
\<close>

record key_env =
  existsSync :: "jsstring \<Rightarrow> bool"
  readdirSync :: "jsstring \<Rightarrow> jsstring list"
  readFileSync :: "jsstring \<Rightarrow> jsstring option"
  ssh_keygen_l :: "jsstring \<Rightarrow> jsstring option"
  ssh_keygen_y :: "jsstring \<Rightarrow> bool"
  ssh_add_l :: "jsstring option"

type_synonym spawned = "jsstring list list"

definition isValidSshPublicKeyFile :: "key_env \<Rightarrow> jsstring \<Rightarrow> bool \<times> spawned" where
  "isValidSshPublicKeyFile env path =
     (ssh_keygen_l env path \<noteq> None, [[js ''ssh-keygen'', js ''-lf'', path]])"

text \<open>The loop of \<^verbatim>\<open>findExistingKeys\<close> over the directory entries.\<close>

fun findExistingKeys_loop ::
  "key_env \<Rightarrow> jsstring \<Rightarrow> jsstring list \<Rightarrow> SshKeyInfo list \<times> spawned" where
  "findExistingKeys_loop env sshDir [] = ([], [])"
| "findExistingKeys_loop env sshDir (file # files) =
     (if \<not> suffix (js ''.pub'') file then findExistingKeys_loop env sshDir files
      else
        let pub = sshDir @ js ''/'' @ file;
            priv = take (length pub - 4) pub
        in if \<not> existsSync env priv then findExistingKeys_loop env sshDir files
           else
             let (valid, log1) = isValidSshPublicKeyFile env pub;
                 (keys, log2) = findExistingKeys_loop env sshDir files
             in if \<not> valid then (keys, log1 @ log2)
                else (case readFileSync env pub of
                        None \<Rightarrow> (keys, log1 @ log2)
                      | Some content \<Rightarrow>
                          if trim content \<noteq> []
                          then (\<lparr>privateKeyPath = priv, publicKeyPath = pub,
                                  publicKey = trim content\<rparr> # keys, log1 @ log2)
                          else (keys, log1 @ log2)))"

definition findExistingKeys :: "key_env \<Rightarrow> jsstring \<Rightarrow> SshKeyInfo list \<times> spawned" where
  "findExistingKeys env sshDir =
     (if \<not> existsSync env sshDir then ([], [])
      else findExistingKeys_loop env sshDir (readdirSync env sshDir))"

definition getHavenKeyPath :: "jsstring \<Rightarrow> jsstring" where
  "getHavenKeyPath sshDir = sshDir @ js ''/'' @ HAVEN_KEY_NAME"

definition hasHavenKey :: "key_env \<Rightarrow> jsstring \<Rightarrow> bool" where
  "hasHavenKey env sshDir =
     (let keyPath = getHavenKeyPath sshDir
      in existsSync env keyPath \<and> existsSync env (keyPath @ js ''.pub''))"

definition isKeyEncrypted :: "key_env \<Rightarrow> jsstring \<Rightarrow> bool \<times> spawned" where
  "isKeyEncrypted env keyPath =
     (\<not> ssh_keygen_y env keyPath,
      [[js ''ssh-keygen'', js ''-y'', js ''-P'', [], js ''-f'', keyPath]])"

definition getAgentFingerprints :: "key_env \<Rightarrow> jsstring list \<times> spawned" where
  "getAgentFingerprints env =
     ((case ssh_add_l env of
         None \<Rightarrow> []
       | Some out \<Rightarrow>
           List.map_filter (\<lambda>line. nth_opt (js_split line (js '' '')) 1)
             (filter (\<lambda>line. length line > 0) (js_split (trim out) (js ''\<newline>'')))),
      [[js ''ssh-add'', js ''-l'']])"

definition getKeyFingerprint :: "key_env \<Rightarrow> jsstring \<Rightarrow> jsstring option \<times> spawned" where
  "getKeyFingerprint env keyPath =
     ((case ssh_keygen_l env keyPath of
         None \<Rightarrow> None
       | Some out \<Rightarrow> nth_opt (js_split (trim out) (js '' '')) 1),
      [[js ''ssh-keygen'', js ''-lf'', keyPath]])"

text \<open>
  One round of the loop of \<^verbatim>\<open>analyzeKeys\<close>. \<^verbatim>\<open>fingerprint ? ... : false\<close> is false for
  a missing and for an empty fingerprint.
\<close>

definition analyzeKey :: "key_env \<Rightarrow> jsstring list \<Rightarrow> SshKeyInfo \<Rightarrow> KeyAnalysis \<times> spawned" where
  "analyzeKey env agentFingerprints k =
     (let (enc, log1) = isKeyEncrypted env (privateKeyPath k);
          (fingerprint, log2) = getKeyFingerprint env (privateKeyPath k);
          ag = (case fingerprint of
                  None \<Rightarrow> False
                | Some fp \<Rightarrow> if fp = [] then False else fp \<in> set agentFingerprints);
          us = (\<not> enc \<or> ag)
      in (\<lparr>key = k, encrypted = enc, inAgent = ag, usable = us\<rparr>, log1 @ log2))"

fun analyzeKeys_loop ::
  "key_env \<Rightarrow> jsstring list \<Rightarrow> SshKeyInfo list \<Rightarrow> KeyAnalysis list \<times> spawned" where
  "analyzeKeys_loop env agentFingerprints [] = ([], [])"
| "analyzeKeys_loop env agentFingerprints (k # ks) =
     (let (a, log1) = analyzeKey env agentFingerprints k;
          (analyses, log2) = analyzeKeys_loop env agentFingerprints ks
      in (a # analyses, log1 @ log2))"

definition analyzeKeys :: "key_env \<Rightarrow> jsstring \<Rightarrow> KeyAnalysis list \<times> spawned" where
  "analyzeKeys env sshDir =
     (let (keys, log1) = findExistingKeys env sshDir;
          (agentFingerprints, log2) = getAgentFingerprints env;
          (analyses, log3) = analyzeKeys_loop env agentFingerprints keys
      in (analyses, log1 @ log2 @ log3))"

definition hasUsableKey :: "key_env \<Rightarrow> jsstring \<Rightarrow> bool \<times> spawned" where
  "hasUsableKey env sshDir =
     (if hasHavenKey env sshDir then (True, [])
      else
        let (analyses, log) = analyzeKeys env sshDir
        in (list_ex usable analyses, log))"

text \<open>
  Two environments to run the key functions on: one with a single passphrase-protected
  key that the agent holds, one where every file exists (so the managed key does) and
  every key is passphrase-protected and unknown to the agent.
\<close>

definition example_key_env :: key_env where
  "example_key_env =
     \<lparr>existsSync = (\<lambda>p. p = js ''/u/.ssh'' \<or> p = js ''/u/.ssh/id_rsa''
                           \<or> p = js ''/u/.ssh/id_rsa.pub''),
      readdirSync = (\<lambda>d. [js ''id_rsa'', js ''id_rsa.pub'', js ''known_hosts'']),
      readFileSync = (\<lambda>p. Some (js ''ssh-rsa AAAA u@h'')),
      ssh_keygen_l = (\<lambda>p. Some (js ''3072 SHA256:abc u@h (RSA)'')),
      ssh_keygen_y = (\<lambda>p. False),
      ssh_add_l = Some (js ''3072 SHA256:abc u@h (RSA)'')\<rparr>"

definition managed_key_env :: key_env where
  "managed_key_env =
     \<lparr>existsSync = (\<lambda>p. True),
      readdirSync = (\<lambda>d. [js ''haven_ed25519'', js ''haven_ed25519.pub'']),
      readFileSync = (\<lambda>p. Some (js ''ssh-ed25519 AAAA haven-cli'')),
      ssh_keygen_l = (\<lambda>p. Some (js ''256 SHA256:xyz haven-cli (ED25519)'')),
      ssh_keygen_y = (\<lambda>p. False),
      ssh_add_l = None\<rparr>"

section \<open>The connect command (commands/connect.ts)\<close>

text \<open>
  The part of \<^verbatim>\<open>connect\<close> from the host key option to the end of the connection test.
  Its effects are recorded as events; the terminal output (spinners, messages) is left
  out. The answers of the outside world are parameters: the results of the first and
  of the second \<^verbatim>\<open>testConnection\<close> and the line the operator types at the prompt; each
  is read only where the code makes the call.
\<close>

record conn_result =
  success :: bool
  error :: "jsstring option"

datatype event =
  RemoveHostKey jsstring int
| WriteHostConfig jsstring jsstring int jsstring
| TestConnection jsstring
| Prompt jsstring jsstring

text \<open>
  \<open>Exit n\<close> is \<^verbatim>\<open>process.exit(n)\<close>; \<open>StartSync\<close> is control leaving the connection test
  for the rest of \<^verbatim>\<open>connect\<close>, which reads the idle timeout and calls \<^verbatim>\<open>startSync\<close>.
\<close>

datatype outcome = Exit int | StartSync

text \<open>\<^verbatim>\<open>prompt\<close>: \<^verbatim>\<open>answer.trim() || defaultValue || ""\<close>.\<close>

definition prompt_answer :: "jsstring \<Rightarrow> jsstring \<Rightarrow> jsstring" where
  "prompt_answer typed defaultValue = (if trim typed \<noteq> [] then trim typed else defaultValue)"

definition reconnect_question :: jsstring where
  "reconnect_question =
     js ''Connection fingerprint changed. If you recently updated your workspace, this is expected. Reconnect? [Y/n]''"

definition connect_test ::
  "(jsstring \<Rightarrow> jsstring) \<Rightarrow> bool \<Rightarrow> ConnectionConfig \<Rightarrow> jsstring
     \<Rightarrow> conn_result \<Rightarrow> jsstring \<Rightarrow> conn_result \<Rightarrow> outcome \<times> event list" where
  "connect_test toLowerCase resetHostKey config alias connResult typed retryResult =
     (let ev0 = (if resetHostKey then [RemoveHostKey (config_host config) (config_port config)]
                 else [])
                @ [WriteHostConfig alias (config_host config) (config_port config)
                     (config_user config),
                   TestConnection alias]
      in if \<not> success connResult then
           if (case error connResult of
                 None \<Rightarrow> False
               | Some e \<Rightarrow> js_includes e (js ''Host key verification failed''))
           then
             let answer = prompt_answer typed (js ''Y'');
                 ev1 = ev0 @ [Prompt reconnect_question (js ''Y'')]
             in if toLowerCase answer = js ''n'' then (Exit 1, ev1)
                else
                  let ev2 = ev1 @ [RemoveHostKey (config_host config) (config_port config),
                                   TestConnection alias]
                  in if \<not> success retryResult then (Exit 1, ev2) else (StartSync, ev2)
           else (Exit 1, ev0)
         else (StartSync, ev0))"

text \<open>Reading a trace: the events after the first connection test, the purges, the tests.\<close>

fun is_test :: "event \<Rightarrow> bool" where
  "is_test (TestConnection a) = True"
| "is_test e = False"

fun is_purge :: "event \<Rightarrow> bool" where
  "is_purge (RemoveHostKey h p) = True"
| "is_purge e = False"

definition after_first_test :: "event list \<Rightarrow> event list" where
  "after_first_test tr = tl (dropWhile (\<lambda>e. \<not> is_test e) tr)"

section \<open>Regular expressions\<close>

text \<open>
  The part of ECMAScript's regular expressions that the host patterns use, with the
  backtracking semantics of the language definition: a matcher takes a position and a
  continuation, and a quantifier tries its greedy alternative first. A position is the
  code unit before it (none at the start of the input) and the input after it, which is all
  that \<^verbatim>\<open>^\<close> looks back at. \<open>Bol\<close> is \<^verbatim>\<open>^\<close> under the \<^verbatim>\<open>m\<close> flag, \<open>Dot\<close> is \<^verbatim>\<open>.\<close>
  (no line terminator), \<open>NotAhead\<close> is \<^verbatim>\<open>(?!...)\<close>; an iteration of \<^verbatim>\<open>*\<close> or \<^verbatim>\<open>?\<close> that
  consumes nothing is rejected.
\<close>

datatype regex =
  Eps
| Chr code_unit
| Dot
| Bol
| Seq regex regex
| Star regex
| Opt regex
| NotAhead regex

type_synonym pos = "code_unit option \<times> jsstring"

fun at_line_start :: "code_unit option \<Rightarrow> bool" where
  "at_line_start None = True"
| "at_line_start (Some c) = isLineTerminator c"

function matcher :: "regex \<Rightarrow> pos \<Rightarrow> (pos \<Rightarrow> pos option) \<Rightarrow> pos option" where
  "matcher Eps s k = k s"
| "matcher (Chr c) s k =
     (case snd s of
        [] \<Rightarrow> None
      | x # xs \<Rightarrow> if x = c then k (Some x, xs) else None)"
| "matcher Dot s k =
     (case snd s of
        [] \<Rightarrow> None
      | x # xs \<Rightarrow> if isLineTerminator x then None else k (Some x, xs))"
| "matcher Bol s k = (if at_line_start (fst s) then k s else None)"
| "matcher (Seq r1 r2) s k = matcher r1 s (\<lambda>s'. matcher r2 s' k)"
| "matcher (Star r) s k =
     (case matcher r s
             (\<lambda>s'. if length (snd s') < length (snd s) then matcher (Star r) s' k else None) of
        Some e \<Rightarrow> Some e
      | None \<Rightarrow> k s)"
| "matcher (Opt r) s k =
     (case matcher r s (\<lambda>s'. if length (snd s') < length (snd s) then k s' else None) of
        Some e \<Rightarrow> Some e
      | None \<Rightarrow> k s)"
| "matcher (NotAhead r) s k =
     (case matcher r s Some of
        None \<Rightarrow> k s
      | Some e \<Rightarrow> None)"
  by pat_completeness auto
termination
  by (relation "measures [\<lambda>(r, s, k). size r, \<lambda>(r, s, k). length (snd s)]") auto

declare matcher.simps [simp del]

text \<open>The pattern of a literal text.\<close>

fun lit :: "jsstring \<Rightarrow> regex" where
  "lit [] = Eps"
| "lit (c # cs) = Seq (Chr c) (lit cs)"

text \<open>
  \<^verbatim>\<open>s.replace(pattern, "")\<close> for a pattern with the \<^verbatim>\<open>g\<close> flag: the matches are found
  from the left, each search starting where the last match ended (one code unit further
  after an empty match), and every match is removed.
\<close>

function replace_from :: "regex \<Rightarrow> code_unit option \<Rightarrow> jsstring \<Rightarrow> jsstring" where
  "replace_from r p xs =
     (case matcher r (p, xs) Some of
        Some (p', rest) \<Rightarrow>
          if length rest < length xs then replace_from r p' rest
          else (case xs of [] \<Rightarrow> [] | x # xs' \<Rightarrow> x # replace_from r (Some x) xs')
      | None \<Rightarrow> (case xs of [] \<Rightarrow> [] | x # xs' \<Rightarrow> x # replace_from r (Some x) xs'))"
  by pat_completeness auto
termination
  by (relation "measure (\<lambda>(r, p, xs). length xs)") auto

declare replace_from.simps [simp del]

definition replace_all :: "regex \<Rightarrow> jsstring \<Rightarrow> jsstring" where
  "replace_all r s = replace_from r None s"

section \<open>The SSH client configuration (ssh/config.ts)\<close>

text \<open>\<^verbatim>\<open>lines.join("\n")\<close>.\<close>

fun join_lines :: "jsstring list \<Rightarrow> jsstring" where
  "join_lines [] = []"
| "join_lines [l] = l"
| "join_lines (l # ls) = l @ js ''\<newline>'' @ join_lines ls"

text \<open>
  \<^verbatim>\<open>generateHostConfig\<close>; \<open>keyPaths\<close> is the result of \<^verbatim>\<open>getAllKeyPaths()\<close>, the private
  key paths of \<^verbatim>\<open>findExistingKeys\<close>. The port is an integer, printed by \<open>numberToString\<close>.
\<close>

definition generateHostConfig ::
  "jsstring list \<Rightarrow> jsstring \<Rightarrow> jsstring \<Rightarrow> int \<Rightarrow> jsstring \<Rightarrow> jsstring" where
  "generateHostConfig keyPaths alias host port user =
     (let identityLines = join_lines (map (\<lambda>p. js ''  IdentityFile '' @ p) keyPaths);
          identitySection = (if identityLines \<noteq> [] then identityLines @ js ''\<newline>'' else [])
      in js ''Host '' @ alias @ js ''\<newline>''
         @ js ''  HostName '' @ host @ js ''\<newline>''
         @ js ''  Port '' @ numberToString port @ js ''\<newline>''
         @ js ''  User '' @ user @ js ''\<newline>''
         @ identitySection
         @ js ''  ForwardAgent no\<newline>''
         @ js ''  ForwardX11 no\<newline>''
         @ js ''  StrictHostKeyChecking accept-new\<newline>''
         @ js ''  ServerAliveInterval 5\<newline>''
         @ js ''  ServerAliveCountMax 3\<newline>'')"

text \<open>
  The pattern \<^verbatim>\<open>new RegExp(`^Host ${alias}\n(?:(?!^Host ).*\n?)*`, "gm")\<close>. The alias is
  pasted into the source of the pattern: an ordinary character of it stands for itself
  and a dot for \<^verbatim>\<open>.\<close>. An alias with another character of the pattern syntax
  (\<^verbatim>\<open>^ $ * + ? ( ) [ ] { } |\<close> or the backslash, 92) gives a pattern that lies outside
  this model, or no pattern at all (the constructor throws): \<open>hostPattern\<close> is the
  pattern of the source for the other aliases only, and \<open>pattern_text\<close> are the aliases
  that stand for themselves.
\<close>

definition pattern_text :: "jsstring \<Rightarrow> bool" where
  "pattern_text alias = (\<forall>c \<in> set alias. c \<notin> set (js ''^$.*+?()[]{}|'' @ [92]))"

fun pattern_source :: "jsstring \<Rightarrow> regex" where
  "pattern_source [] = Eps"
| "pattern_source (c # cs) = Seq (if c = 46 then Dot else Chr c) (pattern_source cs)"

definition block_line :: regex where
  "block_line = Seq (NotAhead (Seq Bol (lit (js ''Host '')))) (Seq (Star Dot) (Opt (Chr 10)))"

definition hostPattern :: "jsstring \<Rightarrow> regex" where
  "hostPattern alias =
     Seq Bol (Seq (pattern_source (js ''Host '' @ alias @ js ''\<newline>'')) (Star block_line))"

text \<open>The pattern of an alias that stands for itself.\<close>

definition literalPattern :: "jsstring \<Rightarrow> regex" where
  "literalPattern alias =
     Seq Bol (Seq (lit (js ''Host '' @ alias @ js ''\<newline>'')) (Star block_line))"

text \<open>
  The configuration file is \<open>None\<close> when it does not exist and its content otherwise;
  both functions return the file as they leave it.
\<close>

definition writeHostConfig ::
  "jsstring list \<Rightarrow> jsstring \<Rightarrow> jsstring \<Rightarrow> int \<Rightarrow> jsstring \<Rightarrow> jsstring option \<Rightarrow> jsstring option" where
  "writeHostConfig keyPaths alias host port user file =
     (let newConfig = generateHostConfig keyPaths alias host port user;
          existingContent = (case file of None \<Rightarrow> [] | Some content \<Rightarrow> content);
          updatedContent = replace_all (hostPattern alias) existingContent;
          finalContent = trim (trim updatedContent @ js ''\<newline>\<newline>'' @ newConfig) @ js ''\<newline>''
      in Some finalContent)"

definition removeHostConfig :: "jsstring \<Rightarrow> jsstring option \<Rightarrow> jsstring option" where
  "removeHostConfig alias file =
     (case file of
        None \<Rightarrow> None
      | Some existingContent \<Rightarrow>
          let updatedContent = trim (replace_all (hostPattern alias) existingContent)
          in if updatedContent \<noteq> [] then Some (updatedContent @ js ''\<newline>'')
             else Some existingContent)"

section \<open>Host blocks, as the specification words them\<close>

text \<open>
  The matching rule of the specification, on a text whose lines end with the newline
  character: a block begins at a line \<open>Host alias\<close> and runs through the following lines
  up to the next line that begins with \<open>Host \<close>, or to the end of the text.
  \<open>skip_block\<close> is the text from the first line that begins with \<open>Host \<close> on, and
  \<open>strip_blocks\<close> is the text without the blocks of the alias. A last line without a
  newline after it begins no block.
\<close>

definition unix_text :: "jsstring \<Rightarrow> bool" where
  "unix_text s = (\<forall>c \<in> set s. isLineTerminator c \<longrightarrow> c = 10)"

lemma dropWhile_Cons_shorter: "dropWhile P xs = c # ys \<Longrightarrow> length ys < length xs"
proof -
  assume "dropWhile P xs = c # ys"
  then have "Suc (length ys) = length (dropWhile P xs)" by simp
  also have "\<dots> \<le> length xs" by (rule length_dropWhile_le)
  finally show ?thesis by simp
qed

function skip_block :: "jsstring \<Rightarrow> jsstring" where
  "skip_block xs =
     (if prefix (js ''Host '') xs then xs
      else case dropWhile (\<lambda>c. c \<noteq> 10) xs of
             [] \<Rightarrow> []
           | c # ys \<Rightarrow> skip_block ys)"
  by pat_completeness auto
termination
  by (relation "measure length") (auto dest: dropWhile_Cons_shorter)

declare skip_block.simps [simp del]

lemma length_skip_block: "length (skip_block xs) \<le> length xs"
proof (induction xs rule: skip_block.induct)
  case (1 xs)
  show ?case
  proof (cases "prefix (js ''Host '') xs")
    case True
    then show ?thesis by (subst skip_block.simps) simp
  next
    case False
    show ?thesis
    proof (cases "dropWhile (\<lambda>c. c \<noteq> 10) xs")
      case Nil
      show ?thesis using False by (subst skip_block.simps) (simp add: Nil)
    next
      case (Cons c ys)
      have "length (skip_block ys) \<le> length ys" using 1 False Cons by simp
      moreover have "length ys < length xs" using Cons by (rule dropWhile_Cons_shorter)
      ultimately show ?thesis using False by (subst skip_block.simps) (simp add: Cons)
    qed
  qed
qed

function strip_blocks :: "jsstring \<Rightarrow> jsstring \<Rightarrow> jsstring" where
  "strip_blocks a xs =
     (case dropWhile (\<lambda>c. c \<noteq> 10) xs of
        [] \<Rightarrow> xs
      | c # ys \<Rightarrow>
          if takeWhile (\<lambda>c. c \<noteq> 10) xs = js ''Host '' @ a then strip_blocks a (skip_block ys)
          else takeWhile (\<lambda>c. c \<noteq> 10) xs @ 10 # strip_blocks a ys)"
  by pat_completeness auto
termination
proof (relation "measure (\<lambda>(a, xs). length xs)")
  show "wf (measure (\<lambda>(a, xs). length xs))" by simp
next
  fix a xs :: jsstring and c ys
  assume "dropWhile (\<lambda>c. c \<noteq> 10) xs = c # ys"
  then have "length ys < length xs" by (rule dropWhile_Cons_shorter)
  moreover have "length (skip_block ys) \<le> length ys" by (rule length_skip_block)
  ultimately show "((a, skip_block ys), (a, xs)) \<in> measure (\<lambda>(a, xs). length xs)" by simp
next
  fix a xs :: jsstring and c ys
  assume "dropWhile (\<lambda>c. c \<noteq> 10) xs = c # ys"
  then have "length ys < length xs" by (rule dropWhile_Cons_shorter)
  then show "((a, ys), (a, xs)) \<in> measure (\<lambda>(a, xs). length xs)" by simp
qed

declare strip_blocks.simps [simp del]

text \<open>A text without a line terminator.\<close>

definition line_text :: "jsstring \<Rightarrow> bool" where
  "line_text s = (\<forall>c \<in> set s. \<not> isLineTerminator c)"

text \<open>
  What the three writes keep of the old configuration, write by write: the old text
  without the blocks of the first alias, trimmed and followed by a blank line, without
  the blocks of the second and of the first alias; nothing when the trimmed text is
  empty.
\<close>

definition kept_text :: "jsstring \<Rightarrow> jsstring \<Rightarrow> jsstring \<Rightarrow> jsstring" where
  "kept_text a b old =
     (let u = trim (strip_blocks a old)
      in if u = [] then [] else strip_blocks a (strip_blocks b (u @ js ''\<newline>\<newline>'')))"

text \<open>The lines of a text: what lies between its newline characters.\<close>

fun text_lines :: "jsstring \<Rightarrow> jsstring list" where
  "text_lines [] = [[]]"
| "text_lines (c # cs) =
     (if c = 10 then [] # text_lines cs
      else (case text_lines cs of [] \<Rightarrow> [[c]] | l # ls \<Rightarrow> (c # l) # ls))"

text \<open>
  A text that is empty or ends with a newline, and a text that is empty or begins a host
  block.
\<close>

definition terminated :: "jsstring \<Rightarrow> bool" where
  "terminated p = (p = [] \<or> last p = 10)"

definition host_start :: "jsstring \<Rightarrow> bool" where
  "host_start y = (y = [] \<or> prefix (js ''Host '') y)"

text \<open>
  A text of white space only; a text without white space; and a text in which no line
  is \<open>Host\<close> or the \<open>Host\<close> line of the alias with white space added at its ends.
\<close>

definition blank :: "jsstring \<Rightarrow> bool" where
  "blank w = (\<forall>c \<in> set w. isWhiteSpace c)"

definition word_text :: "jsstring \<Rightarrow> bool" where
  "word_text s = (\<forall>c \<in> set s. \<not> isWhiteSpace c)"

definition plain_hosts :: "jsstring \<Rightarrow> jsstring \<Rightarrow> bool" where
  "plain_hosts x s =
     (\<forall>l \<in> set (text_lines s).
        trim l = js ''Host'' \<or> trim l = js ''Host '' @ x \<longrightarrow> trim l = l)"

text \<open>
  The shape of a generated block: the \<open>Host\<close> line, then indented lines without a line
  terminator, the last one ending in a visible character; \<open>block_body\<close> is the list of
  the indented lines of \<^verbatim>\<open>generateHostConfig\<close>.
\<close>

definition host_block :: "jsstring \<Rightarrow> jsstring \<Rightarrow> bool" where
  "host_block x blk =
     (\<exists>ls. blk = (js ''Host '' @ x) @ 10 # concat (map (\<lambda>l. l @ [10]) ls)
          \<and> ls \<noteq> []
          \<and> (\<forall>l \<in> set ls. l \<noteq> [] \<and> hd l = 32 \<and> line_text l)
          \<and> \<not> isWhiteSpace (last (last ls)))"

definition block_body :: "jsstring list \<Rightarrow> jsstring \<Rightarrow> int \<Rightarrow> jsstring \<Rightarrow> jsstring list" where
  "block_body ks h p u =
     [js ''  HostName '' @ h, js ''  Port '' @ numberToString p, js ''  User '' @ u]
     @ map (\<lambda>k. js ''  IdentityFile '' @ k) ks
     @ [js ''  ForwardAgent no'', js ''  ForwardX11 no'',
        js ''  StrictHostKeyChecking accept-new'', js ''  ServerAliveInterval 5'',
        js ''  ServerAliveCountMax 3'']"

section \<open>Status classification\<close>

text \<open>
  C5. For every status description the classifier returns the status of the earliest
  keyword, in the order watching, scanning, staging, reconciling, saving, halted,
  disconnected, that occurs in the lower-cased text, and unknown when none occurs; a
  missing or empty description is unknown.
\<close>

theorem parseSessionStatus_priority:
  "parseSessionStatus toLowerCase None = Unknown
   \<and> parseSessionStatus toLowerCase (Some []) = Unknown
   \<and> (s \<noteq> [] \<longrightarrow>
        parseSessionStatus toLowerCase (Some s) = classify_by_priority (toLowerCase s))"
  by (simp add: parseSessionStatus_def classify_by_priority_def status_priority_def Let_def)

theorem parseSessionStatus_priority_witness:
  "js ''Saving; WATCHING for changes'' \<noteq> []
   \<and> parseSessionStatus asciiLower (Some (js ''Saving; WATCHING for changes'')) = Watching
   \<and> classify_by_priority (asciiLower (js ''Saving; WATCHING for changes'')) = Watching"
  using parseSessionStatus_priority [of asciiLower "js ''Saving; WATCHING for changes''"]
  by (simp add: classify_by_priority_def status_priority_def js_def asciiLower_def)

section \<open>Session names\<close>

lemma toString36_nonempty: "toString36 n \<noteq> []"
  by (subst toString36.simps) simp

lemma toString36_digits:
  "set (toString36 n) \<subseteq> set (js ''0123456789abcdefghijklmnopqrstuvwxyz'')"
proof (induction n rule: toString36.induct)
  case (1 n)
  have d: "digit36 k \<in> set (js ''0123456789abcdefghijklmnopqrstuvwxyz'')" if "k < 36" for k
    unfolding digit36_def using that by (intro nth_mem) (simp add: js_def)
  show ?case
  proof (cases "n < 36")
    case True
    then show ?thesis using d by (subst toString36.simps) simp
  next
    case False
    then show ?thesis using 1 d [of "n mod 36"] by (subst toString36.simps) simp
  qed
qed

text \<open>
  C6. The session name is the fixed prefix \<open>haven-\<close> followed by the hash of the
  canonical path; the hash is a non-empty word over the digits 0-9, a-z; and two local
  paths with the same canonical path get the same session name: the name depends on the
  local path through its canonical path only.
\<close>

theorem getSyncSessionName_stable:
  "getSyncSessionName canonicalPath p = js ''haven-'' @ simpleHash (canonicalPath p)
   \<and> simpleHash (canonicalPath p) \<noteq> []
   \<and> set (simpleHash (canonicalPath p)) \<subseteq> set (js ''0123456789abcdefghijklmnopqrstuvwxyz'')
   \<and> (canonicalPath p = canonicalPath q \<longrightarrow>
        getSyncSessionName canonicalPath p = getSyncSessionName canonicalPath q)"
  by (simp add: getSyncSessionName_def simpleHash_def toString36_nonempty toString36_digits)

lemma hash_tmp_p:
  "fold (\<lambda>c hash. hash_step hash c) (js ''/tmp/p'') 0 = (1456054953 :: 32 word)"
  by (simp add: js_def hash_step_def)

lemma toString36_example: "toString36 1456054953 = js ''o2wb6x''"
  by (simp add: js_def digit36_def toString36.simps)

lemma simpleHash_tmp_p: "simpleHash (js ''/tmp/p'') = js ''o2wb6x''"
  unfolding simpleHash_def hash_tmp_p by (simp add: toString36_example)

theorem getSyncSessionName_stable_witness:
  "(\<lambda>p. if p \<noteq> [] \<and> last p = 47 then butlast p else p) (js ''/tmp/p/'')
     = (\<lambda>p. if p \<noteq> [] \<and> last p = 47 then butlast p else p) (js ''/tmp/p'')
   \<and> getSyncSessionName (\<lambda>p. if p \<noteq> [] \<and> last p = 47 then butlast p else p) (js ''/tmp/p/'')
     = getSyncSessionName (\<lambda>p. if p \<noteq> [] \<and> last p = 47 then butlast p else p) (js ''/tmp/p'')
   \<and> getSyncSessionName (\<lambda>p. if p \<noteq> [] \<and> last p = 47 then butlast p else p) (js ''/tmp/p/'')
     = js ''haven-o2wb6x''"
proof -
  let ?c = "\<lambda>p :: jsstring. if p \<noteq> [] \<and> last p = 47 then butlast p else p"
  have c1: "?c (js ''/tmp/p/'') = js ''/tmp/p''" by (simp add: js_def)
  have c2: "?c (js ''/tmp/p'') = js ''/tmp/p''" by (simp add: js_def)
  have e: "?c (js ''/tmp/p/'') = ?c (js ''/tmp/p'')" using c1 c2 by simp
  note fact = getSyncSessionName_stable [of ?c "js ''/tmp/p/''" "js ''/tmp/p''"]
  have s: "getSyncSessionName ?c (js ''/tmp/p/'') = getSyncSessionName ?c (js ''/tmp/p'')"
    using fact e by blast
  have "getSyncSessionName ?c (js ''/tmp/p/'') = js ''haven-'' @ simpleHash (?c (js ''/tmp/p/''))"
    using fact by blast
  then have v: "getSyncSessionName ?c (js ''/tmp/p/'') = js ''haven-o2wb6x''"
    unfolding c1 simpleHash_tmp_p by (simp add: js_def)
  from e s v show ?thesis by blast
qed

section \<open>Stopping a sync session\<close>

lemma js_includes_iff: "js_includes s w \<longleftrightarrow> (\<exists>ps ss. s = ps @ w @ ss)"
proof (induction s)
  case Nil
  then show ?case by auto
next
  case (Cons x xs)
  show ?case
  proof
    assume "js_includes (x # xs) w"
    then consider "prefix w (x # xs)" | "js_includes xs w" by auto
    then show "\<exists>ps ss. x # xs = ps @ w @ ss"
    proof cases
      case 1
      then obtain ss where "x # xs = w @ ss" by (auto simp add: prefix_def)
      then have "x # xs = [] @ w @ ss" by simp
      then show ?thesis by blast
    next
      case 2
      then obtain ps ss where "xs = ps @ w @ ss" using Cons.IH by blast
      then have "x # xs = (x # ps) @ w @ ss" by simp
      then show ?thesis by blast
    qed
  next
    assume "\<exists>ps ss. x # xs = ps @ w @ ss"
    then obtain ps ss where e: "x # xs = ps @ w @ ss" by blast
    show "js_includes (x # xs) w"
    proof (cases ps)
      case Nil
      then have "prefix w (x # xs)" using e by (simp add: prefix_def)
      then show ?thesis by simp
    next
      case (Cons p ps')
      then have "xs = ps' @ w @ ss" using e by simp
      then have "js_includes xs w" using Cons.IH by blast
      then show ?thesis by simp
    qed
  qed
qed

lemma js_includes_rev: "js_includes (rev s) (rev w) = js_includes s w"
proof -
  have "(\<exists>ps ss. rev s = ps @ rev w @ ss) \<longleftrightarrow> (\<exists>ps ss. s = ps @ w @ ss)"
  proof
    assume "\<exists>ps ss. rev s = ps @ rev w @ ss"
    then obtain ps ss where "rev s = ps @ rev w @ ss" by blast
    then have "rev (rev s) = rev (ps @ rev w @ ss)" by simp
    then have "s = rev ss @ w @ rev ps" by simp
    then show "\<exists>ps ss. s = ps @ w @ ss" by blast
  next
    assume "\<exists>ps ss. s = ps @ w @ ss"
    then obtain ps ss where "s = ps @ w @ ss" by blast
    then have "rev s = rev ss @ rev w @ rev ps" by simp
    then show "\<exists>ps ss. rev s = ps @ rev w @ ss" by blast
  qed
  then show ?thesis by (simp add: js_includes_iff)
qed

lemma js_includes_dropWhile:
  "w \<noteq> [] \<Longrightarrow> \<not> P (hd w) \<Longrightarrow> js_includes (dropWhile P s) w = js_includes s w"
proof (induction s)
  case Nil
  then show ?case by simp
next
  case (Cons x xs)
  show ?case
  proof (cases "P x")
    case True
    have "\<not> prefix w (x # xs)"
    proof
      assume "prefix w (x # xs)"
      then have "hd w = x" using Cons.prems(1) by (cases w) auto
      then show False using True Cons.prems(2) by simp
    qed
    then show ?thesis using True Cons by simp
  next
    case False
    then show ?thesis by simp
  qed
qed

lemma js_includes_trim:
  assumes "w \<noteq> []" and "\<not> isWhiteSpace (hd w)" and "\<not> isWhiteSpace (last w)"
  shows "js_includes (trim s) w = js_includes s w"
proof -
  have r: "rev w \<noteq> []" "\<not> isWhiteSpace (hd (rev w))"
    using assms by (simp_all add: hd_rev)
  have "js_includes (trim s) w = js_includes (rev (dropWhile isWhiteSpace (rev (trimStart s)))) (rev (rev w))"
    by (simp add: trim_def trimEnd_def)
  also have "\<dots> = js_includes (dropWhile isWhiteSpace (rev (trimStart s))) (rev w)"
    by (rule js_includes_rev)
  also have "\<dots> = js_includes (rev (trimStart s)) (rev w)"
    using r by (rule js_includes_dropWhile)
  also have "\<dots> = js_includes (trimStart s) w"
    by (rule js_includes_rev)
  also have "\<dots> = js_includes s w"
    unfolding trimStart_def using assms(1,2) by (rule js_includes_dropWhile)
  finally show ?thesis .
qed

lemma does_not_exist_trim:
  "js_includes (trim s) (js ''does not exist'') = js_includes s (js ''does not exist'')"
  by (rule js_includes_trim) (simp_all add: js_def isWhiteSpace_def isLineTerminator_def)

text \<open>
  C4. Once the engine binary is there and the terminate command has run:
  \<^verbatim>\<open>stopSync\<close> returns normally whenever the error output of the command contains
  \<open>does not exist\<close> (and whenever the command exits with zero), and it raises exactly when the
  command exits non-zero and the error output does not contain \<open>does not exist\<close>.
\<close>

theorem stopSync_idempotent:
  assumes "ensureMutagenInstalled eng = Inr path"
    and "spawn eng [path, js ''sync'', js ''terminate'', getSyncSessionName canonicalPath localPath] = r"
  shows "(js_includes (stderr r) (js ''does not exist'')
            \<longrightarrow> stopSync canonicalPath eng localPath = Inr ())
       \<and> (exitCode r = 0 \<longrightarrow> stopSync canonicalPath eng localPath = Inr ())
       \<and> (exitCode r \<noteq> 0 \<and> \<not> js_includes (stderr r) (js ''does not exist'')
            \<longrightarrow> stopSync canonicalPath eng localPath
                  = Inl (Error (js ''Failed to stop sync: '' @ trim (stderr r))))
       \<and> (isl (stopSync canonicalPath eng localPath)
            \<longleftrightarrow> exitCode r \<noteq> 0 \<and> \<not> js_includes (stderr r) (js ''does not exist''))"
  using assms
  by (simp add: stopSync_def runMutagen_def Let_def does_not_exist_trim)

theorem stopSync_idempotent_witness:
  "ensureMutagenInstalled
     \<lparr>ensureMutagenInstalled = Inr (js ''/bin/mutagen''),
      spawn = (\<lambda>args. \<lparr>exitCode = 1, stdout = [],
                        stderr = js ''Error: session does not exist''\<rparr>)\<rparr>
     = Inr (js ''/bin/mutagen'')
   \<and> js_includes (js ''Error: session does not exist'') (js ''does not exist'')
   \<and> stopSync (\<lambda>p. p)
        \<lparr>ensureMutagenInstalled = Inr (js ''/bin/mutagen''),
         spawn = (\<lambda>args. \<lparr>exitCode = 1, stdout = [],
                           stderr = js ''Error: session does not exist''\<rparr>)\<rparr>
        (js ''/tmp/p'') = Inr ()
   \<and> \<not> js_includes (js ''Error: daemon down'') (js ''does not exist'')
   \<and> stopSync (\<lambda>p. p)
        \<lparr>ensureMutagenInstalled = Inr (js ''/bin/mutagen''),
         spawn = (\<lambda>args. \<lparr>exitCode = 1, stdout = [], stderr = js ''Error: daemon down''\<rparr>)\<rparr>
        (js ''/tmp/p'') = Inl (Error (js ''Failed to stop sync: Error: daemon down''))"
proof -
  let ?gone = "\<lparr>exitCode = 1, stdout = [], stderr = js ''Error: session does not exist''\<rparr>"
  let ?down = "\<lparr>exitCode = 1, stdout = [], stderr = js ''Error: daemon down''\<rparr>"
  let ?e1 = "\<lparr>ensureMutagenInstalled = Inr (js ''/bin/mutagen''), spawn = (\<lambda>args. ?gone)\<rparr>"
  let ?e2 = "\<lparr>ensureMutagenInstalled = Inr (js ''/bin/mutagen''), spawn = (\<lambda>args. ?down)\<rparr>"
  have i1: "js_includes (js ''Error: session does not exist'') (js ''does not exist'')"
    by (simp add: js_def)
  have i2: "\<not> js_includes (js ''Error: daemon down'') (js ''does not exist'')"
    by (simp add: js_def)
  have t: "trim (js ''Error: daemon down'') = js ''Error: daemon down''"
    by (simp add: trim_def trimStart_def trimEnd_def js_def isWhiteSpace_def isLineTerminator_def)
  have 1: "stopSync (\<lambda>p. p) ?e1 (js ''/tmp/p'') = Inr ()"
    using stopSync_idempotent [of ?e1 "js ''/bin/mutagen''" "\<lambda>p. p" "js ''/tmp/p''" ?gone] i1
    by simp
  have 2: "stopSync (\<lambda>p. p) ?e2 (js ''/tmp/p'')
             = Inl (Error (js ''Failed to stop sync: Error: daemon down''))"
    using stopSync_idempotent [of ?e2 "js ''/bin/mutagen''" "\<lambda>p. p" "js ''/tmp/p''" ?down] i2 t
    by (simp add: js_def)
  from i1 i2 1 2 show ?thesis by simp
qed

section \<open>Reading the status of a sync session\<close>

lemma find_session_absent:
  "\<forall>line \<in> set lines. nth_opt (js_split line (js ''|'')) 0 \<noteq> Some sessionName \<Longrightarrow>
   find_session toLowerCase num sessionName lines
     = \<lparr>status = Disconnected, conflicts = [], errors = []\<rparr>"
  by (induction lines) (simp_all add: Let_def)

text \<open>
  C10, as the specification states it, fails: \<^verbatim>\<open>getSyncStatus\<close> starts with
  \<^verbatim>\<open>runMutagen\<close>, which awaits \<^verbatim>\<open>ensureMutagenInstalled\<close> outside any \<^verbatim>\<open>try\<close>. When the
  engine binary cannot be provided, the error leaves \<^verbatim>\<open>getSyncStatus\<close>.
\<close>

theorem getSyncStatus_raises_counterexample:
  "getSyncStatus asciiLower small_numbers (\<lambda>p. p)
     \<lparr>ensureMutagenInstalled = Inl (Error (js ''Failed to download mutagen'')),
      spawn = (\<lambda>args. \<lparr>exitCode = 0, stdout = [], stderr = []\<rparr>)\<rparr>
     (js ''/tmp/p'')
   = Inl (Error (js ''Failed to download mutagen''))"
  by (simp add: getSyncStatus_def runMutagen_def)

text \<open>
  C10, amended. \<^verbatim>\<open>getSyncStatus\<close> raises exactly when \<^verbatim>\<open>ensureMutagenInstalled\<close> does,
  and then with the same error. When the engine binary is there, it returns a status for
  every local path: when the list command exits non-zero the status is disconnected, with
  no conflict and the (trimmed) error output as the one error; when it exits with zero
  and no non-empty line of the (trimmed) listing has the session name as its first field,
  the status is disconnected with no conflict and no error.
\<close>

theorem getSyncStatus_disconnected:
  "(ensureMutagenInstalled eng = Inl e \<longrightarrow>
      getSyncStatus toLowerCase num canonicalPath eng localPath = Inl e)
   \<and> (isl (getSyncStatus toLowerCase num canonicalPath eng localPath)
        \<longleftrightarrow> isl (ensureMutagenInstalled eng))
   \<and> (ensureMutagenInstalled eng = Inr path
        \<and> spawn eng [path, js ''sync'', js ''list'', js ''--template'', status_template] = r
      \<longrightarrow> (exitCode r \<noteq> 0 \<longrightarrow>
             getSyncStatus toLowerCase num canonicalPath eng localPath
               = Inr \<lparr>status = Disconnected, conflicts = [], errors = [trim (stderr r)]\<rparr>)
          \<and> (exitCode r = 0
              \<and> (\<forall>line \<in> set (filter (\<lambda>l. l \<noteq> [])
                                  (js_split (trim (stdout r)) (js ''\<newline>''))).
                    nth_opt (js_split line (js ''|'')) 0
                      \<noteq> Some (getSyncSessionName canonicalPath localPath))
              \<longrightarrow> getSyncStatus toLowerCase num canonicalPath eng localPath
                    = Inr \<lparr>status = Disconnected, conflicts = [], errors = []\<rparr>))"
proof -
  have i: "getSyncStatus toLowerCase num canonicalPath eng localPath = Inl e"
    if "ensureMutagenInstalled eng = Inl e"
    using that by (simp add: getSyncStatus_def runMutagen_def)
  have l: "isl (getSyncStatus toLowerCase num canonicalPath eng localPath)
        \<longleftrightarrow> isl (ensureMutagenInstalled eng)"
    by (cases "ensureMutagenInstalled eng")
      (simp_all add: getSyncStatus_def runMutagen_def Let_def)
  have a: "getSyncStatus toLowerCase num canonicalPath eng localPath
              = Inr \<lparr>status = Disconnected, conflicts = [], errors = [trim (stderr r)]\<rparr>"
    if "ensureMutagenInstalled eng = Inr path"
      and "spawn eng [path, js ''sync'', js ''list'', js ''--template'', status_template] = r"
      and "exitCode r \<noteq> 0"
    using that by (simp add: getSyncStatus_def runMutagen_def Let_def)
  have b: "getSyncStatus toLowerCase num canonicalPath eng localPath
              = Inr \<lparr>status = Disconnected, conflicts = [], errors = []\<rparr>"
    if p: "ensureMutagenInstalled eng = Inr path"
      and s: "spawn eng [path, js ''sync'', js ''list'', js ''--template'', status_template] = r"
      and z: "exitCode r = 0"
      and n: "\<forall>line \<in> set (filter (\<lambda>l. l \<noteq> []) (js_split (trim (stdout r)) (js ''\<newline>''))).
                  nth_opt (js_split line (js ''|'')) 0
                    \<noteq> Some (getSyncSessionName canonicalPath localPath)"
    using p s z find_session_absent [OF n, of toLowerCase num]
    by (simp add: getSyncStatus_def runMutagen_def Let_def)
  from i l a b show ?thesis by blast
qed

lemma sessionName_tmp_p: "getSyncSessionName (\<lambda>p. p) (js ''/tmp/p'') = js ''haven-o2wb6x''"
  unfolding getSyncSessionName_def Let_def simpleHash_tmp_p by (simp add: js_def)

theorem getSyncStatus_disconnected_witness:
  "ensureMutagenInstalled
     \<lparr>ensureMutagenInstalled = Inr (js ''/bin/mutagen''),
      spawn = (\<lambda>args. \<lparr>exitCode = 0, stdout = js ''haven-abc|Watching for changes|0||'',
                        stderr = []\<rparr>)\<rparr>
     = Inr (js ''/bin/mutagen'')
   \<and> list_all (\<lambda>line. nth_opt (js_split line (js ''|'')) 0
                        \<noteq> Some (getSyncSessionName (\<lambda>p. p) (js ''/tmp/p'')))
        (filter (\<lambda>l. l \<noteq> [])
           (js_split (trim (js ''haven-abc|Watching for changes|0||'')) (js ''\<newline>'')))
   \<and> getSyncStatus asciiLower small_numbers (\<lambda>p. p)
        \<lparr>ensureMutagenInstalled = Inr (js ''/bin/mutagen''),
         spawn = (\<lambda>args. \<lparr>exitCode = 0, stdout = js ''haven-abc|Watching for changes|0||'',
                           stderr = []\<rparr>)\<rparr>
        (js ''/tmp/p'')
       = Inr \<lparr>status = Disconnected, conflicts = [], errors = []\<rparr>
   \<and> getSyncStatus asciiLower small_numbers (\<lambda>p. p)
        \<lparr>ensureMutagenInstalled = Inr (js ''/bin/mutagen''),
         spawn = (\<lambda>args. \<lparr>exitCode = 1, stdout = [], stderr = js ''daemon down''\<rparr>)\<rparr>
        (js ''/tmp/p'')
       = Inr \<lparr>status = Disconnected, conflicts = [], errors = [js ''daemon down'']\<rparr>
   \<and> getSyncStatus asciiLower small_numbers (\<lambda>p. p)
        \<lparr>ensureMutagenInstalled = Inl (Error (js ''no binary'')),
         spawn = (\<lambda>args. \<lparr>exitCode = 1, stdout = [], stderr = js ''daemon down''\<rparr>)\<rparr>
        (js ''/tmp/p'')
       = Inl (Error (js ''no binary''))"
proof -
  let ?ok = "\<lparr>exitCode = 0, stdout = js ''haven-abc|Watching for changes|0||'', stderr = []\<rparr>"
  let ?down = "\<lparr>exitCode = 1, stdout = [], stderr = js ''daemon down''\<rparr>"
  let ?e1 = "\<lparr>ensureMutagenInstalled = Inr (js ''/bin/mutagen''), spawn = (\<lambda>args. ?ok)\<rparr>"
  let ?e2 = "\<lparr>ensureMutagenInstalled = Inr (js ''/bin/mutagen''), spawn = (\<lambda>args. ?down)\<rparr>"
  let ?e3 = "\<lparr>ensureMutagenInstalled = Inl (Error (js ''no binary'')), spawn = (\<lambda>args. ?down)\<rparr>"
  have t1: "trim (js ''haven-abc|Watching for changes|0||'')
              = js ''haven-abc|Watching for changes|0||''"
    by (simp add: trim_def trimStart_def trimEnd_def js_def isWhiteSpace_def isLineTerminator_def)
  have t2: "trim (js ''daemon down'') = js ''daemon down''"
    by (simp add: trim_def trimStart_def trimEnd_def js_def isWhiteSpace_def isLineTerminator_def)
  have l: "js_split (js ''haven-abc|Watching for changes|0||'') (js ''\<newline>'')
             = [js ''haven-abc|Watching for changes|0||'']"
    by (simp add: js_split_def js_def split_from.simps)
  have f: "nth_opt (js_split (js ''haven-abc|Watching for changes|0||'') (js ''|'')) 0
             = Some (js ''haven-abc'')"
    by (simp add: js_split_def js_def split_from.simps nth_opt_def)
  have n: "js ''haven-abc'' \<noteq> js ''haven-o2wb6x''"
    by (simp add: js_def)
  have ne: "js ''haven-abc|Watching for changes|0||'' \<noteq> []"
    by (simp add: js_def)
  have h: "list_all (\<lambda>line. nth_opt (js_split line (js ''|'')) 0
                        \<noteq> Some (getSyncSessionName (\<lambda>p. p) (js ''/tmp/p'')))
        (filter (\<lambda>l. l \<noteq> [])
           (js_split (trim (js ''haven-abc|Watching for changes|0||'')) (js ''\<newline>'')))"
    unfolding t1 l sessionName_tmp_p using f n ne by simp
  have 1: "getSyncStatus asciiLower small_numbers (\<lambda>p. p) ?e1 (js ''/tmp/p'')
       = Inr \<lparr>status = Disconnected, conflicts = [], errors = []\<rparr>"
    using getSyncStatus_disconnected
      [of ?e1 undefined asciiLower small_numbers "\<lambda>p. p" "js ''/tmp/p''" "js ''/bin/mutagen''" ?ok] h
    by (simp add: list_all_iff)
  have 2: "getSyncStatus asciiLower small_numbers (\<lambda>p. p) ?e2 (js ''/tmp/p'')
       = Inr \<lparr>status = Disconnected, conflicts = [], errors = [js ''daemon down'']\<rparr>"
    using getSyncStatus_disconnected
      [of ?e2 undefined asciiLower small_numbers "\<lambda>p. p" "js ''/tmp/p''" "js ''/bin/mutagen''" ?down] t2
    by simp
  have 3: "getSyncStatus asciiLower small_numbers (\<lambda>p. p) ?e3 (js ''/tmp/p'')
       = Inl (Error (js ''no binary''))"
    using getSyncStatus_disconnected
      [of ?e3 "Error (js ''no binary'')" asciiLower small_numbers "\<lambda>p. p" "js ''/tmp/p''"]
    by simp
  from h 1 2 3 show ?thesis by simp
qed

text \<open>A listing that names the session, read with the builtins on small integers.\<close>

lemma example_listing_lines:
  "filter (\<lambda>l. l \<noteq> [])
     (js_split (trim (js ''haven-o2wb6x|Watching for changes|2|denied;;|\<newline>'')) (js ''\<newline>''))
   = [js ''haven-o2wb6x|Watching for changes|2|denied;;|'']"
  by code_simp

lemma example_listing_session:
  "find_session asciiLower small_numbers (js ''haven-o2wb6x'')
     [js ''haven-o2wb6x|Watching for changes|2|denied;;|'']
   = \<lparr>status = Watching, conflicts = [js ''2 conflict(s) detected''],
          errors = [js ''denied'']\<rparr>"
  by code_simp

lemma getSyncStatus_example:
  "getSyncStatus asciiLower small_numbers (\<lambda>p. p)
     \<lparr>ensureMutagenInstalled = Inr (js ''/bin/mutagen''),
      spawn = (\<lambda>args. \<lparr>exitCode = 0,
                        stdout = js ''haven-o2wb6x|Watching for changes|2|denied;;|\<newline>'',
                        stderr = []\<rparr>)\<rparr>
     (js ''/tmp/p'')
   = Inr \<lparr>status = Watching, conflicts = [js ''2 conflict(s) detected''],
          errors = [js ''denied'']\<rparr>"
  unfolding getSyncStatus_def runMutagen_def sessionName_tmp_p
  by (simp add: Let_def example_listing_lines example_listing_session del: find_session.simps)

section \<open>Ignore patterns\<close>

lemma fold_set_add_distinct: "distinct acc \<Longrightarrow> distinct (fold set_add xs acc)"
  by (induction xs arbitrary: acc) (simp_all add: set_add_def)

lemma fold_set_add_set: "set (fold set_add xs acc) = set acc \<union> set xs"
  by (induction xs arbitrary: acc) (auto simp add: set_add_def)

lemma fold_set_add_id: "distinct (acc @ xs) \<Longrightarrow> fold set_add xs acc = acc @ xs"
  by (induction xs arbitrary: acc) (simp_all add: set_add_def)

lemma count_list_distinct:
  "distinct xs \<Longrightarrow> x \<in> set xs \<Longrightarrow> count_list xs x = 1"
  by (induction xs) auto

lemma array_from_set_count:
  "count_list (array_from_set xs) x = (if x \<in> set xs then 1 else 0)"
proof -
  have d: "distinct (array_from_set xs)"
    by (simp add: array_from_set_def fold_set_add_distinct)
  have s: "set (array_from_set xs) = set xs"
    by (simp add: array_from_set_def fold_set_add_set)
  show ?thesis
  proof (cases "x \<in> set xs")
    case True
    then have "x \<in> set (array_from_set xs)" using s by simp
    then show ?thesis using d True by (simp add: count_list_distinct)
  next
    case False
    then have "x \<notin> set (array_from_set xs)" using s by simp
    then show ?thesis using False by simp
  qed
qed

lemma DEFAULT_IGNORE_PATTERNS_distinct: "distinct DEFAULT_IGNORE_PATTERNS"
  by (simp add: DEFAULT_IGNORE_PATTERNS_def js_def)

lemma fold_set_add_prefix: "prefix acc (fold set_add xs acc)"
proof (induction xs arbitrary: acc)
  case Nil
  show ?case by simp
next
  case (Cons x xs)
  have "prefix acc (set_add x acc)" by (simp add: set_add_def)
  moreover have "prefix (set_add x acc) (fold set_add xs (set_add x acc))" by (rule Cons)
  ultimately show ?case by (simp add: prefix_order.trans)
qed

lemma array_from_set_baseline:
  "array_from_set (DEFAULT_IGNORE_PATTERNS @ xs) = fold set_add xs DEFAULT_IGNORE_PATTERNS"
  using fold_set_add_id [of "[]" DEFAULT_IGNORE_PATTERNS] DEFAULT_IGNORE_PATTERNS_distinct
  by (simp add: array_from_set_def)

text \<open>
  The patterns of an ignore file, in words: the lines of the file, trimmed, that are
  neither empty nor comments.
\<close>

lemma parseIgnoreFile_set:
  "set (parseIgnoreFile content)
   = {p. \<exists>l \<in> set (js_split content (js ''\<newline>'')).
           p = trim l \<and> p \<noteq> [] \<and> \<not> prefix (js ''#'') p}"
  by (auto simp add: parseIgnoreFile_def)

text \<open>
  C7. Without the project's ignore file the result is the baseline list itself, whatever
  the file system holds, and so it is when the file is asked for and does not exist. When
  the file \<open>.gitignore\<close> of the project root exists, the result holds exactly the baseline
  patterns and the patterns of that file (its lines, trimmed, that are neither empty nor
  comments). In every case the result has no duplicate, so a pattern of both sources
  occurs once, and it begins with the baseline list.
\<close>

theorem getAllIgnorePatterns_union:
  "getAllIgnorePatterns resolve fs root False = DEFAULT_IGNORE_PATTERNS
   \<and> (fs (resolve root (js ''.gitignore'')) = None \<longrightarrow>
        getAllIgnorePatterns resolve fs root True = DEFAULT_IGNORE_PATTERNS)
   \<and> (fs (resolve root (js ''.gitignore'')) = Some content \<longrightarrow>
        set (getAllIgnorePatterns resolve fs root True)
        = set DEFAULT_IGNORE_PATTERNS
          \<union> {p. \<exists>l \<in> set (js_split content (js ''\<newline>'')).
                  p = trim l \<and> p \<noteq> [] \<and> \<not> prefix (js ''#'') p})
   \<and> distinct (getAllIgnorePatterns resolve fs root True)
   \<and> prefix DEFAULT_IGNORE_PATTERNS (getAllIgnorePatterns resolve fs root True)
   \<and> count_list (getAllIgnorePatterns resolve fs root True) p
       = (if p \<in> set (getAllIgnorePatterns resolve fs root True) then 1 else 0)"
proof -
  have a: "getAllIgnorePatterns resolve fs root False = DEFAULT_IGNORE_PATTERNS"
    using array_from_set_baseline [of "[]"] by (simp add: getAllIgnorePatterns_def)
  have n: "getAllIgnorePatterns resolve fs root True = DEFAULT_IGNORE_PATTERNS"
    if "fs (resolve root (js ''.gitignore'')) = None"
    using that array_from_set_baseline [of "[]"]
    by (simp add: getAllIgnorePatterns_def loadGitignorePatterns_def GITIGNORE_FILE_def)
  have s: "set (getAllIgnorePatterns resolve fs root True)
        = set DEFAULT_IGNORE_PATTERNS
          \<union> {p. \<exists>l \<in> set (js_split content (js ''\<newline>'')).
                  p = trim l \<and> p \<noteq> [] \<and> \<not> prefix (js ''#'') p}"
    if "fs (resolve root (js ''.gitignore'')) = Some content"
  proof -
    have "loadGitignorePatterns resolve fs root = parseIgnoreFile content"
      using that by (simp add: loadGitignorePatterns_def GITIGNORE_FILE_def)
    then have "set (getAllIgnorePatterns resolve fs root True)
        = set DEFAULT_IGNORE_PATTERNS \<union> set (parseIgnoreFile content)"
      by (simp add: getAllIgnorePatterns_def array_from_set_def fold_set_add_set)
    then show ?thesis unfolding parseIgnoreFile_set .
  qed
  have d: "distinct (getAllIgnorePatterns resolve fs root True)"
    by (simp add: getAllIgnorePatterns_def array_from_set_def fold_set_add_distinct)
  have p: "prefix DEFAULT_IGNORE_PATTERNS (getAllIgnorePatterns resolve fs root True)"
    by (simp add: getAllIgnorePatterns_def array_from_set_baseline fold_set_add_prefix)
  have c: "count_list (getAllIgnorePatterns resolve fs root True) p
       = (if p \<in> set (getAllIgnorePatterns resolve fs root True) then 1 else 0)"
    using d by (simp add: count_list_distinct)
  from a n s d p c show ?thesis by blast
qed

text \<open>The patterns of the example project.\<close>

lemma example_project_patterns:
  "getAllIgnorePatterns (\<lambda>d f. d @ js ''/'' @ f) example_project (js ''/proj'') True
   = DEFAULT_IGNORE_PATTERNS @ [js ''*.secret'']"
  by code_simp

theorem getAllIgnorePatterns_union_witness:
  "example_project (js ''/proj'' @ js ''/'' @ js ''.gitignore'')
     = Some (js ''# local\<newline>node_modules/\<newline>\<newline>  *.secret \<newline>'')
   \<and> js ''  *.secret '' \<in> set (js_split (js ''# local\<newline>node_modules/\<newline>\<newline>  *.secret \<newline>'') (js ''\<newline>''))
   \<and> trim (js ''  *.secret '') = js ''*.secret''
   \<and> js ''*.secret''
       \<in> set (getAllIgnorePatterns (\<lambda>d f. d @ js ''/'' @ f) example_project (js ''/proj'') True)
   \<and> count_list
        (getAllIgnorePatterns (\<lambda>d f. d @ js ''/'' @ f) example_project (js ''/proj'') True)
        (js ''node_modules/'') = 1
   \<and> getAllIgnorePatterns (\<lambda>d f. d @ js ''/'' @ f) example_project (js ''/proj'') False
       = DEFAULT_IGNORE_PATTERNS"
proof -
  let ?content = "js ''# local\<newline>node_modules/\<newline>\<newline>  *.secret \<newline>''"
  let ?all = "getAllIgnorePatterns (\<lambda>d f. d @ js ''/'' @ f) example_project (js ''/proj'')"
  have f: "example_project (js ''/proj'' @ js ''/'' @ js ''.gitignore'') = Some ?content"
    by (simp add: example_project_def js_def)
  have l: "js ''  *.secret '' \<in> set (js_split ?content (js ''\<newline>''))"
    by code_simp
  have t: "trim (js ''  *.secret '') = js ''*.secret''"
    by code_simp
  have e: "js ''*.secret'' \<noteq> []" and h: "\<not> prefix (js ''#'') (js ''*.secret'')"
    by (simp_all add: js_def)
  have m: "js ''node_modules/'' \<in> set DEFAULT_IGNORE_PATTERNS"
    by (simp add: DEFAULT_IGNORE_PATTERNS_def)
  note u = getAllIgnorePatterns_union
    [of "\<lambda>d f. d @ js ''/'' @ f" example_project "js ''/proj''" ?content]
  have s: "set (?all True)
        = set DEFAULT_IGNORE_PATTERNS
          \<union> {p. \<exists>l \<in> set (js_split ?content (js ''\<newline>'')).
                  p = trim l \<and> p \<noteq> [] \<and> \<not> prefix (js ''#'') p}"
    using u [of "[]"] f by simp
  have 1: "js ''*.secret'' \<in> set (?all True)"
    unfolding s using l t e h by force
  have 2: "js ''node_modules/'' \<in> set (?all True)"
    unfolding s using m by simp
  have 3: "count_list (?all True) (js ''node_modules/'') = 1"
    using u [of "js ''node_modules/''"] 2 by simp
  have 4: "?all False = DEFAULT_IGNORE_PATTERNS"
    using u [of "[]"] by simp
  from f l t 1 3 4 show ?thesis by simp
qed

section \<open>Key usability\<close>

lemma analyzeKeys_loop_usable:
  "\<forall>a \<in> set (fst (analyzeKeys_loop env fps ks)). usable a = (\<not> encrypted a \<or> inAgent a)"
  by (induction ks) (auto simp add: analyzeKey_def Let_def split: prod.splits)

lemma analyzeKeys_loop_keys: "map key (fst (analyzeKeys_loop env fps ks)) = ks"
  by (induction ks) (auto simp add: analyzeKey_def Let_def split: prod.splits)

lemma analyzeKeys_loop_encrypted:
  "\<forall>a \<in> set (fst (analyzeKeys_loop env fps ks)).
     encrypted a = (\<not> ssh_keygen_y env (privateKeyPath (key a)))"
  by (induction ks)
    (auto simp add: analyzeKey_def isKeyEncrypted_def Let_def split: prod.splits)

text \<open>
  C1. Every analysis that \<^verbatim>\<open>analyzeKeys\<close> returns has its usable flag equal to
  (not encrypted or in the agent), where encrypted is the answer of the passphrase-less
  decode of that key, and the analyses are those of the discovered keys, in order. When
  the managed key exists, \<^verbatim>\<open>hasUsableKey\<close> returns true and has spawned no subprocess:
  the managed key counts as usable without being analysed, whatever an analysis would
  say. Without the managed key \<^verbatim>\<open>hasUsableKey\<close> is true exactly when some analysis is
  usable.
\<close>

theorem analyzeKeys_usable:
  "(\<forall>a \<in> set (fst (analyzeKeys env sshDir)).
       usable a = (\<not> encrypted a \<or> inAgent a)
       \<and> encrypted a = (\<not> ssh_keygen_y env (privateKeyPath (key a))))
   \<and> map key (fst (analyzeKeys env sshDir)) = fst (findExistingKeys env sshDir)
   \<and> (hasHavenKey env sshDir \<longrightarrow> hasUsableKey env sshDir = (True, []))
   \<and> (\<not> hasHavenKey env sshDir \<longrightarrow>
        fst (hasUsableKey env sshDir) = (\<exists>a \<in> set (fst (analyzeKeys env sshDir)). usable a))"
proof -
  obtain keys log1 where k: "findExistingKeys env sshDir = (keys, log1)"
    by (cases "findExistingKeys env sshDir")
  obtain fps log2 where f: "getAgentFingerprints env = (fps, log2)"
    by (cases "getAgentFingerprints env")
  have e: "fst (analyzeKeys env sshDir) = fst (analyzeKeys_loop env fps keys)"
    by (simp add: analyzeKeys_def k f split: prod.splits)
  have a: "\<forall>a \<in> set (fst (analyzeKeys env sshDir)).
       usable a = (\<not> encrypted a \<or> inAgent a)
       \<and> encrypted a = (\<not> ssh_keygen_y env (privateKeyPath (key a)))"
    unfolding e using analyzeKeys_loop_usable [of env fps keys]
      analyzeKeys_loop_encrypted [of env fps keys] by blast
  have b: "map key (fst (analyzeKeys env sshDir)) = fst (findExistingKeys env sshDir)"
    unfolding e k by (simp add: analyzeKeys_loop_keys)
  have c: "hasUsableKey env sshDir = (True, [])" if "hasHavenKey env sshDir"
    using that by (simp add: hasUsableKey_def)
  have d: "fst (hasUsableKey env sshDir) = (\<exists>a \<in> set (fst (analyzeKeys env sshDir)). usable a)"
    if "\<not> hasHavenKey env sshDir"
    using that by (simp add: hasUsableKey_def list_ex_iff split: prod.splits)
  from a b c d show ?thesis by blast
qed

lemma example_keys:
  "findExistingKeys example_key_env (js ''/u/.ssh'')
     = ([\<lparr>privateKeyPath = js ''/u/.ssh/id_rsa'', publicKeyPath = js ''/u/.ssh/id_rsa.pub'',
          publicKey = js ''ssh-rsa AAAA u@h''\<rparr>],
        [[js ''ssh-keygen'', js ''-lf'', js ''/u/.ssh/id_rsa.pub'']])"
  by (simp add: findExistingKeys_def example_key_env_def isValidSshPublicKeyFile_def js_def
      suffix_def trim_def trimStart_def trimEnd_def isWhiteSpace_def isLineTerminator_def
      Let_def)

lemma example_agent:
  "getAgentFingerprints example_key_env = ([js ''SHA256:abc''], [[js ''ssh-add'', js ''-l'']])"
  by (simp add: getAgentFingerprints_def example_key_env_def js_def js_split_def
      split_from.simps nth_opt_def List.map_filter_def trim_def trimStart_def trimEnd_def
      isWhiteSpace_def isLineTerminator_def)

lemma example_fingerprint:
  "getKeyFingerprint example_key_env p = (Some (js ''SHA256:abc''), [[js ''ssh-keygen'', js ''-lf'', p]])"
  by (simp add: getKeyFingerprint_def example_key_env_def js_def js_split_def
      split_from.simps nth_opt_def trim_def trimStart_def trimEnd_def
      isWhiteSpace_def isLineTerminator_def)

lemma example_analysis:
  "fst (analyzeKeys example_key_env (js ''/u/.ssh''))
     = [\<lparr>key = \<lparr>privateKeyPath = js ''/u/.ssh/id_rsa'', publicKeyPath = js ''/u/.ssh/id_rsa.pub'',
                publicKey = js ''ssh-rsa AAAA u@h''\<rparr>,
         encrypted = True, inAgent = True, usable = True\<rparr>]"
proof -
  have "ssh_keygen_y example_key_env p = False" for p
    by (simp add: example_key_env_def)
  moreover have "js ''SHA256:abc'' \<noteq> []"
    by (simp add: js_def)
  ultimately show ?thesis
    by (simp add: analyzeKeys_def example_keys example_agent analyzeKey_def isKeyEncrypted_def
        example_fingerprint)
qed

theorem analyzeKeys_usable_witness:
  "fst (analyzeKeys example_key_env (js ''/u/.ssh''))
     = [\<lparr>key = \<lparr>privateKeyPath = js ''/u/.ssh/id_rsa'', publicKeyPath = js ''/u/.ssh/id_rsa.pub'',
                publicKey = js ''ssh-rsa AAAA u@h''\<rparr>,
         encrypted = True, inAgent = True, usable = True\<rparr>]
   \<and> list_all (\<lambda>a. usable a = (\<not> encrypted a \<or> inAgent a))
        (fst (analyzeKeys example_key_env (js ''/u/.ssh'')))
   \<and> \<not> hasHavenKey example_key_env (js ''/u/.ssh'')
   \<and> fst (hasUsableKey example_key_env (js ''/u/.ssh''))
   \<and> hasHavenKey managed_key_env (js ''/u/.ssh'')
   \<and> \<not> ssh_keygen_y managed_key_env (getHavenKeyPath (js ''/u/.ssh''))
   \<and> hasUsableKey managed_key_env (js ''/u/.ssh'') = (True, [])"
proof -
  note t1 = analyzeKeys_usable [of example_key_env "js ''/u/.ssh''"]
  note t2 = analyzeKeys_usable [of managed_key_env "js ''/u/.ssh''"]
  have a: "list_all (\<lambda>a. usable a = (\<not> encrypted a \<or> inAgent a))
        (fst (analyzeKeys example_key_env (js ''/u/.ssh'')))"
    using t1 unfolding list_all_iff by blast
  have n: "\<not> hasHavenKey example_key_env (js ''/u/.ssh'')"
    by (simp add: hasHavenKey_def getHavenKeyPath_def HAVEN_KEY_NAME_def example_key_env_def
        js_def)
  have u: "fst (hasUsableKey example_key_env (js ''/u/.ssh''))"
    using t1 n by (simp add: example_analysis)
  have h: "hasHavenKey managed_key_env (js ''/u/.ssh'')"
    by (simp add: hasHavenKey_def managed_key_env_def)
  have y: "\<not> ssh_keygen_y managed_key_env (getHavenKeyPath (js ''/u/.ssh''))"
    by (simp add: managed_key_env_def)
  have m: "hasUsableKey managed_key_env (js ''/u/.ssh'') = (True, [])"
    using t2 h by blast
  from example_analysis a n u h y m show ?thesis by blast
qed

section \<open>Host key rotation in connect\<close>

text \<open>
  C8. When the first connection test fails with an error that contains
  \<open>Host key verification failed\<close> and the operator does not answer n, the events after the
  first test are the prompt, one purge of the cached host key and one more test, in this
  order (so the host key is purged once and the test retried once), and the outcome is the
  start of the sync when the retry succeeds and exit code 1 when it fails. When the first
  test fails with any other error, or with none, nothing follows it, neither purge nor
  retry, and the outcome is exit code 1; so does a refusal at the prompt, after which
  only the prompt follows the first test.
\<close>

theorem connect_host_key_rotation:
  "(\<not> success r1 \<and> error r1 = Some e \<and> js_includes e (js ''Host key verification failed'')
      \<and> toLowerCase (prompt_answer typed (js ''Y'')) \<noteq> js ''n''
     \<longrightarrow> after_first_test (snd (connect_test toLowerCase reset config alias r1 typed r2))
           = [Prompt reconnect_question (js ''Y''),
              RemoveHostKey (config_host config) (config_port config),
              TestConnection alias]
         \<and> length (filter is_purge
              (after_first_test (snd (connect_test toLowerCase reset config alias r1 typed r2)))) = 1
         \<and> length (filter is_test
              (snd (connect_test toLowerCase reset config alias r1 typed r2))) = 2
         \<and> fst (connect_test toLowerCase reset config alias r1 typed r2)
           = (if success r2 then StartSync else Exit 1))
   \<and> (\<not> success r1 \<and> error r1 = Some e \<and> js_includes e (js ''Host key verification failed'')
      \<and> toLowerCase (prompt_answer typed (js ''Y'')) = js ''n''
     \<longrightarrow> connect_test toLowerCase reset config alias r1 typed r2
           = (Exit 1,
              (if reset then [RemoveHostKey (config_host config) (config_port config)] else [])
              @ [WriteHostConfig alias (config_host config) (config_port config)
                   (config_user config),
                 TestConnection alias, Prompt reconnect_question (js ''Y'')]))
   \<and> (\<not> success r1
      \<and> (error r1 = None
          \<or> (error r1 = Some e \<and> \<not> js_includes e (js ''Host key verification failed'')))
     \<longrightarrow> after_first_test (snd (connect_test toLowerCase reset config alias r1 typed r2)) = []
         \<and> fst (connect_test toLowerCase reset config alias r1 typed r2) = Exit 1)"
proof -
  let ?run = "connect_test toLowerCase reset config alias r1 typed r2"
  let ?ev0 = "(if reset then [RemoveHostKey (config_host config) (config_port config)] else [])
              @ [WriteHostConfig alias (config_host config) (config_port config)
                   (config_user config),
                 TestConnection alias]"
  have pre: "after_first_test (?ev0 @ evs) = evs" for evs
    by (simp add: after_first_test_def)
  have a: "?run = (if success r2 then StartSync else Exit 1,
                   ?ev0 @ [Prompt reconnect_question (js ''Y''),
                           RemoveHostKey (config_host config) (config_port config),
                           TestConnection alias])"
    if "\<not> success r1" and "error r1 = Some e"
      and "js_includes e (js ''Host key verification failed'')"
      and "toLowerCase (prompt_answer typed (js ''Y'')) \<noteq> js ''n''"
    using that by (simp add: connect_test_def Let_def)
  have b: "?run = (Exit 1,
              (if reset then [RemoveHostKey (config_host config) (config_port config)] else [])
              @ [WriteHostConfig alias (config_host config) (config_port config)
                   (config_user config),
                 TestConnection alias, Prompt reconnect_question (js ''Y'')])"
    if "\<not> success r1" and "error r1 = Some e"
      and "js_includes e (js ''Host key verification failed'')"
      and "toLowerCase (prompt_answer typed (js ''Y'')) = js ''n''"
    using that by (simp add: connect_test_def Let_def)
  have c: "?run = (Exit 1, ?ev0)"
    if "\<not> success r1"
      and "error r1 = None
           \<or> (error r1 = Some e \<and> \<not> js_includes e (js ''Host key verification failed''))"
    using that by (auto simp add: connect_test_def Let_def)
  have a': "after_first_test (snd ?run)
              = [Prompt reconnect_question (js ''Y''),
                 RemoveHostKey (config_host config) (config_port config),
                 TestConnection alias]
            \<and> length (filter is_purge (after_first_test (snd ?run))) = 1
            \<and> length (filter is_test (snd ?run)) = 2
            \<and> fst ?run = (if success r2 then StartSync else Exit 1)"
    if "\<not> success r1" and "error r1 = Some e"
      and "js_includes e (js ''Host key verification failed'')"
      and "toLowerCase (prompt_answer typed (js ''Y'')) \<noteq> js ''n''"
    unfolding a [OF that] snd_conv fst_conv pre by simp
  have c': "after_first_test (snd ?run) = [] \<and> fst ?run = Exit 1"
    if "\<not> success r1"
      and "error r1 = None
           \<or> (error r1 = Some e \<and> \<not> js_includes e (js ''Host key verification failed''))"
    unfolding c [OF that] snd_conv fst_conv using pre [of "[]"] by simp
  from a' b c' show ?thesis by blast
qed

theorem connect_host_key_rotation_witness:
  "\<not> success \<lparr>success = False, error = Some (js ''Host key verification failed.'')\<rparr>
   \<and> error \<lparr>success = False, error = Some (js ''Host key verification failed.'')\<rparr>
       = Some (js ''Host key verification failed.'')
   \<and> js_includes (js ''Host key verification failed.'') (js ''Host key verification failed'')
   \<and> asciiLower (prompt_answer (js '' y '') (js ''Y'')) \<noteq> js ''n''
   \<and> connect_test asciiLower False (found_config example_connection) (js ''haven-dev'')
        \<lparr>success = False, error = Some (js ''Host key verification failed.'')\<rparr> (js '' y '')
        \<lparr>success = True, error = None\<rparr>
       = (StartSync,
          [WriteHostConfig (js ''haven-dev'') (js ''host'') 2222 (js ''user''),
           TestConnection (js ''haven-dev''),
           Prompt reconnect_question (js ''Y''),
           RemoveHostKey (js ''host'') 2222,
           TestConnection (js ''haven-dev'')])
   \<and> \<not> js_includes (js ''Permission denied (publickey).'') (js ''Host key verification failed'')
   \<and> after_first_test (snd (connect_test asciiLower False (found_config example_connection)
        (js ''haven-dev'')
        \<lparr>success = False, error = Some (js ''Permission denied (publickey).'')\<rparr> (js '' y '')
        \<lparr>success = True, error = None\<rparr>)) = []"
proof -
  let ?hk = "\<lparr>success = False, error = Some (js ''Host key verification failed.'')\<rparr>"
  let ?pd = "\<lparr>success = False, error = Some (js ''Permission denied (publickey).'')\<rparr>"
  let ?ok = "\<lparr>success = True, error = None\<rparr>"
  let ?cfg = "found_config example_connection"
  have i: "js_includes (js ''Host key verification failed.'') (js ''Host key verification failed'')"
    by (simp add: js_def)
  have p: "prompt_answer (js '' y '') (js ''Y'') = js ''y''"
    by (simp add: prompt_answer_def trim_def trimStart_def trimEnd_def js_def isWhiteSpace_def
        isLineTerminator_def)
  have a: "asciiLower (prompt_answer (js '' y '') (js ''Y'')) \<noteq> js ''n''"
    unfolding p by (simp add: asciiLower_def js_def)
  have n: "\<not> js_includes (js ''Permission denied (publickey).'') (js ''Host key verification failed'')"
    by (simp add: js_def)
  note t1 = connect_host_key_rotation
    [of ?hk "js ''Host key verification failed.''" asciiLower "js '' y ''" False ?cfg
        "js ''haven-dev''" ?ok]
  note t2 = connect_host_key_rotation
    [of ?pd "js ''Permission denied (publickey).''" asciiLower "js '' y ''" False ?cfg
        "js ''haven-dev''" ?ok]
  have o: "fst (connect_test asciiLower False ?cfg (js ''haven-dev'') ?hk (js '' y '') ?ok)
             = StartSync"
    using t1 i a by simp
  have s: "snd (connect_test asciiLower False ?cfg (js ''haven-dev'') ?hk (js '' y '') ?ok)
             = [WriteHostConfig (js ''haven-dev'') (js ''host'') 2222 (js ''user''),
                TestConnection (js ''haven-dev''),
                Prompt reconnect_question (js ''Y''),
                RemoveHostKey (js ''host'') 2222,
                TestConnection (js ''haven-dev'')]"
    using i a by (simp add: connect_test_def Let_def example_connection_def)
  have 1: "connect_test asciiLower False ?cfg (js ''haven-dev'') ?hk (js '' y '') ?ok
       = (StartSync,
          [WriteHostConfig (js ''haven-dev'') (js ''host'') 2222 (js ''user''),
           TestConnection (js ''haven-dev''),
           Prompt reconnect_question (js ''Y''),
           RemoveHostKey (js ''host'') 2222,
           TestConnection (js ''haven-dev'')])"
    using o s by (simp add: prod_eq_iff)
  have 2: "after_first_test (snd (connect_test asciiLower False ?cfg (js ''haven-dev'') ?pd
             (js '' y '') ?ok)) = []"
    using t2 n by simp
  from i a n 1 2 show ?thesis by simp
qed

section \<open>Removing a host block\<close>

text \<open>
  C3 holds of the text that \<^verbatim>\<open>removeHostConfig\<close> computes, but not of the file it
  leaves: when the block of the alias is all the configuration holds, the pattern matches
  the whole text, the trimmed result is empty, and the function returns without writing.
  The file is kept, as C3 asks, but it still holds the block that was to be deleted.
\<close>

theorem removeHostConfig_keeps_only_block:
  "replace_all (hostPattern (js ''dev'')) (js ''Host dev\<newline>  HostName example.com\<newline>'') = []
   \<and> removeHostConfig (js ''dev'') (Some (js ''Host dev\<newline>  HostName example.com\<newline>''))
       = Some (js ''Host dev\<newline>  HostName example.com\<newline>'')"
  by code_simp

section \<open>Rewriting host blocks\<close>

text \<open>
  C2, as the specification states it, fails: \<^verbatim>\<open>writeHostConfig\<close> trims the text that is
  left of the old configuration, so a first line that starts with white space does not
  come out as it went in. Here the old configuration is one indented comment line; after
  the three writes its line is no line of the configuration any more.
\<close>

theorem writeHostConfig_trim_counterexample:
  "js '' # note'' \<in> set (js_split (js '' # note\<newline>'') (js ''\<newline>''))
   \<and> writeHostConfig [] (js ''a'') (js ''h3'') 22 (js ''u'')
        (writeHostConfig [] (js ''b'') (js ''h2'') 22 (js ''u'')
          (writeHostConfig [] (js ''a'') (js ''h1'') 22 (js ''u'') (Some (js '' # note\<newline>''))))
       = Some (js ''# note\<newline>\<newline>''
           @ generateHostConfig [] (js ''b'') (js ''h2'') 22 (js ''u'') @ js ''\<newline>''
           @ generateHostConfig [] (js ''a'') (js ''h3'') 22 (js ''u''))
   \<and> js '' # note''
       \<notin> set (js_split
           (js ''# note\<newline>\<newline>''
            @ generateHostConfig [] (js ''b'') (js ''h2'') 22 (js ''u'') @ js ''\<newline>''
            @ generateHostConfig [] (js ''a'') (js ''h3'') 22 (js ''u''))
           (js ''\<newline>''))"
  by code_simp

section \<open>What the host pattern matches\<close>

lemma matcher_lit:
  "matcher (lit w) s k =
     (if prefix w (snd s)
      then k (if w = [] then s else (Some (last w), drop (length w) (snd s)))
      else None)"
proof (induction w arbitrary: s)
  case Nil
  then show ?case by (simp add: matcher.simps)
next
  case (Cons c cs)
  show ?case
  proof (cases "snd s")
    case Nil
    then show ?thesis by (simp add: matcher.simps)
  next
    case rest: (Cons x xs)
    then show ?thesis
      using Cons.IH [of "(Some x, xs)"] by (auto simp add: matcher.simps)
  qed
qed

lemma star_dot_greedy:
  "k (if takeWhile (\<lambda>c. \<not> isLineTerminator c) xs = [] then p
        else Some (last (takeWhile (\<lambda>c. \<not> isLineTerminator c) xs)),
      dropWhile (\<lambda>c. \<not> isLineTerminator c) xs) = Some e
   \<Longrightarrow> matcher (Star Dot) (p, xs) k = Some e"
proof (induction xs arbitrary: p)
  case Nil
  then show ?case by (simp add: matcher.simps)
next
  case (Cons x xs)
  show ?case
  proof (cases "isLineTerminator x")
    case True
    then show ?thesis using Cons.prems by (simp add: matcher.simps)
  next
    case False
    then have "matcher (Star Dot) (Some x, xs) k = Some e"
      using Cons.prems by (intro Cons.IH) (simp split: if_splits)
    then show ?thesis using False by (simp add: matcher.simps)
  qed
qed

lemma not_ahead_host:
  "matcher (NotAhead (Seq Bol (lit (js ''Host '')))) (p, xs) k =
     (if at_line_start p \<and> prefix (js ''Host '') xs then None else k (p, xs))"
  by (simp add: matcher.simps matcher_lit)

lemma opt_newline:
  "matcher (Opt (Chr 10)) (q, zs) d =
     (case zs of
        [] \<Rightarrow> d (q, zs)
      | z # zs' \<Rightarrow>
          if z = 10 then (case d (Some 10, zs') of Some e \<Rightarrow> Some e | None \<Rightarrow> d (q, zs))
          else d (q, zs))"
  by (simp add: matcher.simps split: list.splits)

lemma star_block_line_nil: "matcher (Star block_line) (q, []) Some = Some (q, [])"
  by (simp add: matcher.simps block_line_def matcher_lit js_def)

lemma unix_takeWhile:
  "unix_text xs \<Longrightarrow>
   takeWhile (\<lambda>c. \<not> isLineTerminator c) xs = takeWhile (\<lambda>c. c \<noteq> 10) xs"
  by (induction xs) (auto simp add: unix_text_def isLineTerminator_def)

lemma unix_dropWhile:
  "unix_text xs \<Longrightarrow>
   dropWhile (\<lambda>c. \<not> isLineTerminator c) xs = dropWhile (\<lambda>c. c \<noteq> 10) xs"
  by (induction xs) (auto simp add: unix_text_def isLineTerminator_def)

lemma unix_text_dropWhile: "unix_text xs \<Longrightarrow> dropWhile P xs = c # ys \<Longrightarrow> unix_text ys"
proof -
  assume u: "unix_text xs" and d: "dropWhile P xs = c # ys"
  have "set ys \<subseteq> set (dropWhile P xs)" using d by auto
  also have "\<dots> \<subseteq> set xs" by (rule set_dropWhileD [THEN subsetI])
  finally show ?thesis using u by (auto simp add: unix_text_def)
qed

lemma star_block_line:
  "unix_text xs \<Longrightarrow> at_line_start p \<Longrightarrow>
   \<exists>q. matcher (Star block_line) (p, xs) Some = Some (q, skip_block xs)
       \<and> (skip_block xs \<noteq> [] \<longrightarrow> at_line_start q)"
proof (induction xs arbitrary: p rule: skip_block.induct)
  case (1 xs)
  let ?D = "\<lambda>s'. if length (snd s') < length xs then matcher (Star block_line) s' Some else None"
  let ?K = "\<lambda>s'. matcher (Opt (Chr 10)) s' ?D"
  have star: "matcher (Star block_line) (p, xs) Some =
      (case matcher block_line (p, xs) ?D of Some e \<Rightarrow> Some e | None \<Rightarrow> Some (p, xs))"
    by (simp add: matcher.simps)
  show ?case
  proof (cases "prefix (js ''Host '') xs")
    case True
    then have "matcher block_line (p, xs) ?D = None"
      using "1.prems"(2) by (simp add: block_line_def matcher.simps(5) not_ahead_host)
    moreover have "skip_block xs = xs"
      using True by (subst skip_block.simps) simp
    ultimately show ?thesis using star "1.prems"(2) by simp
  next
    case False
    then have line: "matcher block_line (p, xs) ?D = matcher (Star Dot) (p, xs) ?K"
      by (simp add: block_line_def matcher.simps(5) not_ahead_host)
    show ?thesis
    proof (cases "dropWhile (\<lambda>c. c \<noteq> 10) xs")
      case Nil
      have skip: "skip_block xs = []"
        using False by (subst skip_block.simps) (simp add: Nil)
      show ?thesis
      proof (cases "xs = []")
        case True
        then show ?thesis using skip by (simp add: star_block_line_nil)
      next
        case nonempty: False
        let ?q = "Some (last xs)"
        have tw: "takeWhile (\<lambda>c. \<not> isLineTerminator c) xs = xs"
          using "1.prems"(1) Nil by (metis unix_takeWhile takeWhile_dropWhile_id append_Nil2)
        have dw: "dropWhile (\<lambda>c. \<not> isLineTerminator c) xs = []"
          using "1.prems"(1) Nil by (simp only: unix_dropWhile)
        have "?K (if takeWhile (\<lambda>c. \<not> isLineTerminator c) xs = [] then p
                  else Some (last (takeWhile (\<lambda>c. \<not> isLineTerminator c) xs)),
                  dropWhile (\<lambda>c. \<not> isLineTerminator c) xs) = Some (?q, [])"
          unfolding tw dw using nonempty by (simp add: opt_newline star_block_line_nil)
        then have "matcher (Star Dot) (p, xs) ?K = Some (?q, [])"
          by (rule star_dot_greedy)
        then show ?thesis using star line skip by simp
      qed
    next
      case (Cons c ys)
      have "\<not> (\<lambda>c. c \<noteq> 10) (hd (dropWhile (\<lambda>c. c \<noteq> 10) xs))"
        by (rule hd_dropWhile) (simp add: Cons)
      then have c: "c = 10"
        by (simp add: Cons)
      have skip: "skip_block xs = skip_block ys"
        using False by (subst skip_block.simps) (simp add: Cons)
      have shorter: "length ys < length xs"
        using Cons by (rule dropWhile_Cons_shorter)
      have "unix_text ys"
        using "1.prems"(1) Cons by (rule unix_text_dropWhile)
      then obtain q where q: "matcher (Star block_line) (Some 10, ys) Some = Some (q, skip_block ys)"
        and q': "skip_block ys \<noteq> [] \<longrightarrow> at_line_start q"
        using "1.IH" [OF False Cons, of "Some 10"] by (auto simp add: isLineTerminator_def)
      have dw: "dropWhile (\<lambda>c. \<not> isLineTerminator c) xs = 10 # ys"
        using "1.prems"(1) Cons c by (simp only: unix_dropWhile)
      have "?K (if takeWhile (\<lambda>c. \<not> isLineTerminator c) xs = [] then p
                else Some (last (takeWhile (\<lambda>c. \<not> isLineTerminator c) xs)),
                dropWhile (\<lambda>c. \<not> isLineTerminator c) xs) = Some (q, skip_block ys)"
        unfolding dw using q shorter by (simp add: opt_newline)
      then have "matcher (Star Dot) (p, xs) ?K = Some (q, skip_block ys)"
        by (rule star_dot_greedy)
      then show ?thesis using star line skip q' by simp
    qed
  qed
qed

lemma host_pattern_match:
  "matcher (literalPattern a) (p, xs) Some =
     (if at_line_start p \<and> prefix (js ''Host '' @ a @ [10]) xs
      then matcher (Star block_line) (Some 10, drop (length (js ''Host '' @ a @ [10])) xs) Some
      else None)"
proof -
  have n: "js ''\<newline>'' = [10]" by (simp add: js_def)
  show ?thesis
    unfolding literalPattern_def n by (simp add: matcher.simps(4,5) matcher_lit)
qed

lemma replace_from_Nil: "replace_from (literalPattern a) p [] = []"
proof -
  have "matcher (literalPattern a) (p, []) Some = None"
    by (simp add: host_pattern_match)
  then show ?thesis by (subst replace_from.simps) simp
qed

lemma replace_from_no_match:
  assumes "\<not> (at_line_start p \<and> prefix (js ''Host '' @ a @ [10]) (x # xs))"
  shows "replace_from (literalPattern a) p (x # xs) = x # replace_from (literalPattern a) (Some x) xs"
proof -
  have "matcher (literalPattern a) (p, x # xs) Some = None"
    unfolding host_pattern_match using assms by auto
  then show ?thesis by (subst replace_from.simps) simp
qed

lemma replace_copy:
  "\<forall>c \<in> set l. \<not> isLineTerminator c \<Longrightarrow> l \<noteq> [] \<Longrightarrow>
   \<not> (at_line_start p \<and> prefix (js ''Host '' @ a @ [10]) (l @ rest)) \<Longrightarrow>
   replace_from (literalPattern a) p (l @ rest)
     = l @ replace_from (literalPattern a) (Some (last l)) rest"
proof (induction l arbitrary: p)
  case Nil
  then show ?case by simp
next
  case (Cons c l)
  have first: "replace_from (literalPattern a) p ((c # l) @ rest)
                 = c # replace_from (literalPattern a) (Some c) (l @ rest)"
    using Cons.prems(3) by (simp add: replace_from_no_match)
  show ?case
  proof (cases "l = []")
    case True
    then show ?thesis using first by simp
  next
    case False
    have "\<not> at_line_start (Some c)" using Cons.prems(1) by simp
    then have "replace_from (literalPattern a) (Some c) (l @ rest)
                 = l @ replace_from (literalPattern a) (Some (last l)) rest"
      using Cons.prems(1) False by (intro Cons.IH) simp_all
    then show ?thesis using first False by simp
  qed
qed

lemma takeWhile_line: "10 \<notin> set l \<Longrightarrow> takeWhile (\<lambda>c. c \<noteq> 10) (l @ 10 # ys) = l"
  by (induction l) auto

lemma dropWhile_line: "10 \<notin> set l \<Longrightarrow> dropWhile (\<lambda>c. c \<noteq> 10) (l @ 10 # ys) = 10 # ys"
  by (induction l) auto

lemma takeWhile_no_newline: "10 \<notin> set l \<Longrightarrow> takeWhile (\<lambda>c. c \<noteq> 10) l = l"
  by (induction l) auto

lemma dropWhile_no_newline: "10 \<notin> set l \<Longrightarrow> dropWhile (\<lambda>c. c \<noteq> 10) l = []"
  by (induction l) auto

lemma header_prefix:
  assumes "10 \<notin> set l" and "10 \<notin> set a"
  shows "prefix (js ''Host '' @ a @ [10]) (l @ 10 # ys) \<longleftrightarrow> l = js ''Host '' @ a"
proof
  assume "prefix (js ''Host '' @ a @ [10]) (l @ 10 # ys)"
  then obtain zs where e: "l @ 10 # ys = (js ''Host '' @ a) @ 10 # zs"
    by (auto simp add: prefix_def)
  have h: "10 \<notin> set (js ''Host '' @ a)" using assms(2) by (simp add: js_def)
  have "takeWhile (\<lambda>c. c \<noteq> 10) (l @ 10 # ys) = l"
    using assms(1) by (rule takeWhile_line)
  moreover have "takeWhile (\<lambda>c. c \<noteq> 10) ((js ''Host '' @ a) @ 10 # zs) = js ''Host '' @ a"
    using h by (rule takeWhile_line)
  ultimately show "l = js ''Host '' @ a" using e by simp
next
  assume "l = js ''Host '' @ a"
  then show "prefix (js ''Host '' @ a @ [10]) (l @ 10 # ys)" by (simp add: prefix_def)
qed

lemma header_not_prefix_line:
  "10 \<notin> set l \<Longrightarrow> \<not> prefix (js ''Host '' @ a @ [10]) l"
proof
  assume n: "10 \<notin> set l" and p: "prefix (js ''Host '' @ a @ [10]) l"
  have "set (js ''Host '' @ a @ [10]) \<subseteq> set l" using p by (rule set_mono_prefix)
  then show False using n by auto
qed

lemma set_skip_block: "set (skip_block xs) \<subseteq> set xs"
proof (induction xs rule: skip_block.induct)
  case (1 xs)
  show ?case
  proof (cases "prefix (js ''Host '') xs")
    case True
    then show ?thesis by (subst skip_block.simps) simp
  next
    case False
    show ?thesis
    proof (cases "dropWhile (\<lambda>c. c \<noteq> 10) xs")
      case Nil
      show ?thesis using False by (subst skip_block.simps) (simp add: Nil)
    next
      case (Cons c ys)
      have "set (skip_block ys) \<subseteq> set ys" using 1 False Cons by simp
      moreover have "set ys \<subseteq> set xs"
        using set_dropWhileD [of _ "\<lambda>c. c \<noteq> 10" xs] Cons by auto
      ultimately show ?thesis using False by (subst skip_block.simps) (auto simp add: Cons)
    qed
  qed
qed

lemma unix_text_subset: "unix_text xs \<Longrightarrow> set ys \<subseteq> set xs \<Longrightarrow> unix_text ys"
  by (auto simp add: unix_text_def)

lemma unix_no_newline: "unix_text l \<Longrightarrow> 10 \<notin> set l \<Longrightarrow> \<forall>c \<in> set l. \<not> isLineTerminator c"
  by (auto simp add: unix_text_def)

text \<open>
  On a text whose only line terminator is the newline character, and for an alias without
  one, removing the matches of the host pattern is removing the blocks of the alias as
  the specification words them.
\<close>

lemma replace_from_strip_blocks:
  "unix_text xs \<Longrightarrow> 10 \<notin> set a \<Longrightarrow> at_line_start p \<Longrightarrow>
   replace_from (literalPattern a) p xs = strip_blocks a xs"
proof (induction a xs arbitrary: p rule: strip_blocks.induct)
  case (1 a xs)
  let ?l = "takeWhile (\<lambda>c. c \<noteq> 10) xs"
  have split: "xs = ?l @ dropWhile (\<lambda>c. c \<noteq> 10) xs" by simp
  have l10: "10 \<notin> set ?l" by (auto dest: set_takeWhileD)
  have "unix_text ?l" using "1.prems"(1) by (rule unix_text_subset) (auto dest: set_takeWhileD)
  then have lt: "\<forall>c \<in> set ?l. \<not> isLineTerminator c" using l10 by (rule unix_no_newline)
  show ?case
  proof (cases "dropWhile (\<lambda>c. c \<noteq> 10) xs")
    case Nil
    have "10 \<notin> set xs" using Nil by auto
    then have whole: "xs = ?l" by (simp add: takeWhile_no_newline)
    have s: "strip_blocks a xs = xs" by (subst strip_blocks.simps) (simp add: Nil)
    show ?thesis
    proof (cases "xs = []")
      case True
      then show ?thesis using s by (simp add: replace_from_Nil)
    next
      case False
      have "\<not> prefix (js ''Host '' @ a @ [10]) (xs @ [])"
        using l10 whole header_not_prefix_line [of xs a] by simp
      then have "replace_from (literalPattern a) p (xs @ [])
                   = xs @ replace_from (literalPattern a) (Some (last xs)) []"
        using lt whole False by (intro replace_copy) simp_all
      then show ?thesis using s by (simp add: replace_from_Nil)
    qed
  next
    case (Cons c ys)
    have "\<not> (\<lambda>c. c \<noteq> 10) (hd (dropWhile (\<lambda>c. c \<noteq> 10) xs))"
      by (rule hd_dropWhile) (simp add: Cons)
    then have c: "c = 10" by (simp add: Cons)
    have xs: "xs = ?l @ 10 # ys" using split Cons c by simp
    have shorter: "length ys < length xs" using Cons by (rule dropWhile_Cons_shorter)
    have uys: "unix_text ys" using "1.prems"(1) Cons by (rule unix_text_dropWhile)
    show ?thesis
    proof (cases "?l = js ''Host '' @ a")
      case True
      have s: "strip_blocks a xs = strip_blocks a (skip_block ys)"
        by (subst strip_blocks.simps) (simp add: Cons True)
      have pre: "prefix (js ''Host '' @ a @ [10]) xs"
        using header_prefix [OF l10 "1.prems"(2), of ys] True xs by simp
      have "drop (length (js ''Host '' @ a @ [10])) xs = ys"
        using xs True by (metis append.assoc append_Cons append_Nil append_eq_conv_conj)
      then have m: "matcher (literalPattern a) (p, xs) Some
                      = matcher (Star block_line) (Some 10, ys) Some"
        using pre "1.prems"(3) by (simp add: host_pattern_match)
      obtain q where q: "matcher (Star block_line) (Some 10, ys) Some = Some (q, skip_block ys)"
        and q': "skip_block ys \<noteq> [] \<longrightarrow> at_line_start q"
        using star_block_line [OF uys, of "Some 10"] by (auto simp add: isLineTerminator_def)
      have "length (skip_block ys) < length xs"
        using length_skip_block [of ys] shorter by simp
      then have r: "replace_from (literalPattern a) p xs
                      = replace_from (literalPattern a) q (skip_block ys)"
        using m q by (subst replace_from.simps) simp
      show ?thesis
      proof (cases "skip_block ys = []")
        case True
        have "strip_blocks a [] = []" by (subst strip_blocks.simps) simp
        then show ?thesis using r s True by (simp add: replace_from_Nil)
      next
        case False
        have "unix_text (skip_block ys)"
          using uys set_skip_block by (rule unix_text_subset)
        then have "replace_from (literalPattern a) q (skip_block ys)
                     = strip_blocks a (skip_block ys)"
          using "1.IH"(1) [OF Cons True] "1.prems"(2) q' False by simp
        then show ?thesis using r s by simp
      qed
    next
      case False
      have s: "strip_blocks a xs = ?l @ 10 # strip_blocks a ys"
        by (subst strip_blocks.simps) (simp add: Cons False)
      have np: "\<not> prefix (js ''Host '' @ a @ [10]) (?l @ 10 # ys)"
        using header_prefix [OF l10 "1.prems"(2), of ys] False by simp
      have rest: "replace_from (literalPattern a) (Some 10) ys = strip_blocks a ys"
        using "1.IH"(2) [OF Cons False uys "1.prems"(2), of "Some 10"]
        by (simp add: isLineTerminator_def)
      have "replace_from (literalPattern a) p (?l @ 10 # ys)
              = ?l @ 10 # replace_from (literalPattern a) (Some 10) ys"
      proof (cases "?l = []")
        case True
        then show ?thesis using np by (simp add: replace_from_no_match)
      next
        case nonempty: False
        have "replace_from (literalPattern a) p (?l @ 10 # ys)
                = ?l @ replace_from (literalPattern a) (Some (last ?l)) (10 # ys)"
          using lt nonempty np by (intro replace_copy) simp_all
        moreover have "\<not> at_line_start (Some (last ?l))"
          using lt nonempty last_in_set [of ?l] by simp
        ultimately show ?thesis by (simp add: replace_from_no_match)
      qed
      then show ?thesis using xs s rest by simp
    qed
  qed
qed

lemma pattern_source_lit: "46 \<notin> set s \<Longrightarrow> pattern_source s = lit s"
  by (induction s) auto

lemma pattern_text_no_dot: "pattern_text a \<Longrightarrow> 46 \<notin> set a"
  by (auto simp add: pattern_text_def js_def)

lemma hostPattern_literal: "pattern_text a \<Longrightarrow> hostPattern a = literalPattern a"
proof -
  assume "pattern_text a"
  then have "46 \<notin> set (js ''Host '' @ a @ js ''\<newline>'')"
    using pattern_text_no_dot [of a] by (simp add: js_def)
  then have "pattern_source (js ''Host '' @ a @ js ''\<newline>'')
               = lit (js ''Host '' @ a @ js ''\<newline>'')"
    by (rule pattern_source_lit)
  then show ?thesis
    unfolding hostPattern_def literalPattern_def by simp
qed

text \<open>
  For an alias that stands for itself, on a text whose only line terminator is the
  newline, removing the matches of the pattern is removing the blocks of the alias.
\<close>

lemma replace_all_strip_blocks:
  "pattern_text a \<Longrightarrow> unix_text xs \<Longrightarrow> 10 \<notin> set a \<Longrightarrow>
   replace_all (hostPattern a) xs = strip_blocks a xs"
  by (simp add: replace_all_def hostPattern_literal replace_from_strip_blocks)

text \<open>
  What \<^verbatim>\<open>removeHostConfig\<close> leaves, in the words of the matching rule: the text without
  the blocks of the alias, trimmed and ended by one newline; and the file as it was when
  nothing but white space would remain.
\<close>

lemma removeHostConfig_strip_blocks:
  "pattern_text a \<Longrightarrow> unix_text old \<Longrightarrow> 10 \<notin> set a \<Longrightarrow>
   removeHostConfig a (Some old)
   = (if trim (strip_blocks a old) = [] then Some old
      else Some (trim (strip_blocks a old) @ js ''\<newline>''))"
  by (simp add: removeHostConfig_def replace_all_strip_blocks Let_def)

section \<open>Removing blocks, line by line\<close>

lemma text_lines_line: "10 \<notin> set l \<Longrightarrow> text_lines (l @ 10 # ys) = l # text_lines ys"
  by (induction l) auto

lemma text_lines_last: "10 \<notin> set l \<Longrightarrow> text_lines l = [l]"
  by (induction l) auto

lemma text_induct [consumes 0, case_names last line]:
  assumes "\<And>l. 10 \<notin> set l \<Longrightarrow> P l"
    and "\<And>l ys. 10 \<notin> set l \<Longrightarrow> (\<And>zs. length zs \<le> length ys \<Longrightarrow> P zs) \<Longrightarrow> P (l @ 10 # ys)"
  shows "P (xs :: jsstring)"
proof (induction xs rule: length_induct)
  case (1 xs)
  let ?l = "takeWhile (\<lambda>c. c \<noteq> 10) xs"
  have l10: "10 \<notin> set ?l" by (auto dest: set_takeWhileD)
  show ?case
  proof (cases "dropWhile (\<lambda>c. c \<noteq> 10) xs")
    case Nil
    then have "10 \<notin> set xs" by auto
    then show ?thesis by (rule assms(1))
  next
    case (Cons c ys)
    have "\<not> (\<lambda>c. c \<noteq> 10) (hd (dropWhile (\<lambda>c. c \<noteq> 10) xs))"
      by (rule hd_dropWhile) (simp add: Cons)
    then have c: "c = 10" by (simp add: Cons)
    have xs: "xs = ?l @ 10 # ys"
      using takeWhile_dropWhile_id [of "\<lambda>c. c \<noteq> 10" xs] unfolding Cons c by simp
    have shorter: "length ys < length xs" using Cons by (rule dropWhile_Cons_shorter)
    have "P (?l @ 10 # ys)"
    proof (rule assms(2) [OF l10])
      fix zs :: jsstring
      assume "length zs \<le> length ys"
      then have "length zs < length xs" using shorter by simp
      then show "P zs" using 1 by blast
    qed
    then show ?thesis using xs by simp
  qed
qed

subsection \<open>The equations of the two functions\<close>

lemma host_prefix_line:
  "prefix (js ''Host '') (l @ 10 # ys) \<longleftrightarrow> prefix (js ''Host '') l"
proof
  assume p: "prefix (js ''Host '') (l @ 10 # ys)"
  then consider "prefix (js ''Host '') l"
    | us where "js ''Host '' = l @ us" and "prefix us (10 # ys)"
    unfolding prefix_append by blast
  then show "prefix (js ''Host '') l"
  proof cases
    case 1
    then show ?thesis .
  next
    case 2
    show ?thesis
    proof (cases us)
      case Nil
      then show ?thesis using 2(1) by simp
    next
      case (Cons u us')
      then have "u = 10" using 2(2) by simp
      then have "10 \<in> set (js ''Host '')" using 2(1) Cons by simp
      then show ?thesis by (simp add: js_def)
    qed
  qed
next
  assume "prefix (js ''Host '') l"
  then show "prefix (js ''Host '') (l @ 10 # ys)" by (rule prefix_prefix)
qed

lemma skip_block_host: "prefix (js ''Host '') y \<Longrightarrow> skip_block y = y"
  by (subst skip_block.simps) simp

lemma skip_block_Nil: "skip_block [] = []"
  by (subst skip_block.simps) simp

lemma skip_block_line:
  "10 \<notin> set l \<Longrightarrow> \<not> prefix (js ''Host '') l \<Longrightarrow> skip_block (l @ 10 # ys) = skip_block ys"
  by (subst skip_block.simps) (simp add: host_prefix_line dropWhile_line)

lemma skip_block_last:
  "10 \<notin> set l \<Longrightarrow> \<not> prefix (js ''Host '') l \<Longrightarrow> skip_block l = []"
  by (subst skip_block.simps) (simp add: dropWhile_no_newline)

lemma strip_blocks_last: "10 \<notin> set l \<Longrightarrow> strip_blocks a l = l"
  by (subst strip_blocks.simps) (simp add: dropWhile_no_newline)

lemma strip_blocks_line:
  "10 \<notin> set l \<Longrightarrow> l \<noteq> js ''Host '' @ a \<Longrightarrow>
   strip_blocks a (l @ 10 # ys) = l @ 10 # strip_blocks a ys"
  by (subst strip_blocks.simps) (simp add: dropWhile_line takeWhile_line)

lemma strip_blocks_header:
  "10 \<notin> set a \<Longrightarrow>
   strip_blocks a ((js ''Host '' @ a) @ 10 # ys) = strip_blocks a (skip_block ys)"
proof -
  assume "10 \<notin> set a"
  then have n: "10 \<notin> set (js ''Host '' @ a)" by (simp add: js_def)
  have d: "dropWhile (\<lambda>c. c \<noteq> 10) ((js ''Host '' @ a) @ 10 # ys) = 10 # ys"
    using n by (rule dropWhile_line)
  have t: "takeWhile (\<lambda>c. c \<noteq> 10) ((js ''Host '' @ a) @ 10 # ys) = js ''Host '' @ a"
    using n by (rule takeWhile_line)
  show ?thesis
    by (subst strip_blocks.simps) (simp add: d t del: append_assoc)
qed

subsection \<open>Where a block ends\<close>

lemma skip_block_suffix: "suffix (skip_block xs) xs"
proof (induction xs rule: text_induct)
  case (last l)
  then show ?case
    by (cases "prefix (js ''Host '') l") (simp_all add: skip_block_host skip_block_last)
next
  case (line l ys)
  show ?case
  proof (cases "prefix (js ''Host '') l")
    case True
    then have "prefix (js ''Host '') (l @ 10 # ys)" by (rule prefix_prefix)
    then show ?thesis by (simp add: skip_block_host)
  next
    case False
    have "suffix (skip_block ys) ys" by (rule line.IH) simp
    then have "suffix (skip_block ys) (l @ 10 # ys)"
      by (metis suffix_append suffix_Cons)
    then show ?thesis using line.hyps False by (simp add: skip_block_line)
  qed
qed

lemma skip_block_starts: "skip_block xs = [] \<or> prefix (js ''Host '') (skip_block xs)"
proof (induction xs rule: text_induct)
  case (last l)
  then show ?case
    by (cases "prefix (js ''Host '') l") (simp_all add: skip_block_host skip_block_last)
next
  case (line l ys)
  show ?case
  proof (cases "prefix (js ''Host '') l")
    case True
    then have "prefix (js ''Host '') (l @ 10 # ys)" by (rule prefix_prefix)
    then show ?thesis by (simp add: skip_block_host)
  next
    case False
    have "skip_block ys = [] \<or> prefix (js ''Host '') (skip_block ys)" by (rule line.IH) simp
    then show ?thesis using line.hyps False by (simp add: skip_block_line)
  qed
qed

lemma terminated_line: "terminated (l @ 10 # ys) = terminated ys"
  by (simp add: terminated_def)

lemma terminated_last: "10 \<notin> set l \<Longrightarrow> terminated l \<Longrightarrow> l = []"
  by (cases l rule: rev_cases) (auto simp add: terminated_def)

lemma terminated_skip_block: "terminated ys \<Longrightarrow> terminated (skip_block ys)"
proof -
  assume t: "terminated ys"
  obtain pre where "ys = pre @ skip_block ys"
    using skip_block_suffix [of ys] by (auto simp add: suffix_def)
  then have l: "last (skip_block ys) = last ys" if "skip_block ys \<noteq> []"
    using that by (metis last_appendR)
  show ?thesis
  proof (cases "skip_block ys = []")
    case True
    then show ?thesis by (simp add: terminated_def)
  next
    case False
    then have "ys \<noteq> []" using skip_block_Nil by auto
    then show ?thesis using t l [OF False] False by (simp add: terminated_def)
  qed
qed

lemma skip_block_append:
  "terminated ys \<Longrightarrow> host_start y \<Longrightarrow> skip_block (ys @ y) = skip_block ys @ y"
proof (induction ys rule: text_induct)
  case (last l)
  then have "l = []" by (simp add: terminated_last)
  then show ?case
    using last.prems(2) by (auto simp add: host_start_def skip_block_host skip_block_Nil)
next
  case (line l ys)
  show ?case
  proof (cases "prefix (js ''Host '') l")
    case True
    then have "prefix (js ''Host '') (l @ 10 # ys)" "prefix (js ''Host '') ((l @ 10 # ys) @ y)"
      by (simp_all add: prefix_prefix)
    then show ?thesis by (simp add: skip_block_host)
  next
    case False
    have "skip_block (ys @ y) = skip_block ys @ y"
      using line.prems by (intro line.IH) (simp_all add: terminated_line)
    then show ?thesis
      using line.hyps False skip_block_line [of l "ys @ y"] by (simp add: skip_block_line)
  qed
qed

subsection \<open>What removing the blocks keeps\<close>

lemma strip_blocks_Nil: "strip_blocks a [] = []"
  by (simp add: strip_blocks_last)

lemma strip_blocks_append:
  "10 \<notin> set a \<Longrightarrow> terminated p \<Longrightarrow> host_start y \<Longrightarrow>
   strip_blocks a (p @ y) = strip_blocks a p @ strip_blocks a y"
proof (induction p rule: text_induct)
  case (last l)
  then have "l = []" by (simp add: terminated_last)
  then show ?case by (simp add: strip_blocks_Nil)
next
  case (line l ys)
  have t: "terminated ys" using line.prems(2) by (simp add: terminated_line)
  show ?case
  proof (cases "l = js ''Host '' @ a")
    case True
    have "strip_blocks a (skip_block ys @ y)
            = strip_blocks a (skip_block ys) @ strip_blocks a y"
      using line.prems(1,3) t
      by (intro line.IH) (simp_all add: length_skip_block terminated_skip_block)
    then show ?thesis
      using True line.prems(1,3) t strip_blocks_header [of a "ys @ y"]
        strip_blocks_header [of a ys]
      by (simp add: skip_block_append)
  next
    case False
    have "strip_blocks a (ys @ y) = strip_blocks a ys @ strip_blocks a y"
      using line.prems(1,3) t by (intro line.IH) simp_all
    then show ?thesis
      using line.hyps False strip_blocks_line [of l a "ys @ y"]
      by (simp add: strip_blocks_line)
  qed
qed

lemma strip_blocks_terminated:
  "10 \<notin> set a \<Longrightarrow> terminated x \<Longrightarrow> terminated (strip_blocks a x)"
proof (induction x rule: text_induct)
  case (last l)
  then show ?case by (simp add: strip_blocks_last)
next
  case (line l ys)
  have t: "terminated ys" using line.prems(2) by (simp add: terminated_line)
  show ?case
  proof (cases "l = js ''Host '' @ a")
    case True
    have "terminated (strip_blocks a (skip_block ys))"
      using line.prems(1) t
      by (intro line.IH) (simp_all add: length_skip_block terminated_skip_block)
    then show ?thesis using True line.prems(1) strip_blocks_header [of a ys] by simp
  next
    case False
    have "terminated (strip_blocks a ys)"
      using line.prems(1) t by (intro line.IH) simp_all
    then show ?thesis
      using line.hyps False by (simp add: strip_blocks_line terminated_line)
  qed
qed

lemma strip_blocks_set: "10 \<notin> set a \<Longrightarrow> set (strip_blocks a x) \<subseteq> set x"
proof (induction x rule: text_induct)
  case (last l)
  then show ?case by (simp add: strip_blocks_last)
next
  case (line l ys)
  show ?case
  proof (cases "l = js ''Host '' @ a")
    case True
    have "set (strip_blocks a (skip_block ys)) \<subseteq> set (skip_block ys)"
      using line.prems by (intro line.IH) (simp_all add: length_skip_block)
    also have "\<dots> \<subseteq> set ys" by (rule set_skip_block)
    finally show ?thesis
      using True line.prems strip_blocks_header [of a ys] by auto
  next
    case False
    have "set (strip_blocks a ys) \<subseteq> set ys"
      using line.prems by (intro line.IH) simp_all
    then show ?thesis
      using line.hyps False by (auto simp add: strip_blocks_line)
  qed
qed

lemma strip_blocks_no_leading_space:
  "10 \<notin> set a \<Longrightarrow> x = [] \<or> \<not> isWhiteSpace (hd x) \<Longrightarrow>
   strip_blocks a x = [] \<or> \<not> isWhiteSpace (hd (strip_blocks a x))"
proof (induction x rule: text_induct)
  case (last l)
  then show ?case by (simp add: strip_blocks_last)
next
  case (line l ys)
  show ?case
  proof (cases "l = js ''Host '' @ a")
    case True
    have h: "\<not> isWhiteSpace (hd (js ''Host ''))"
      by (simp add: js_def isWhiteSpace_def isLineTerminator_def)
    have "skip_block ys = [] \<or> \<not> isWhiteSpace (hd (skip_block ys))"
      using skip_block_starts [of ys] h by (auto simp add: prefix_def js_def)
    then have "strip_blocks a (skip_block ys) = []
                 \<or> \<not> isWhiteSpace (hd (strip_blocks a (skip_block ys)))"
      using line.prems(1) by (intro line.IH) (simp_all add: length_skip_block)
    then show ?thesis using True line.prems(1) strip_blocks_header [of a ys] by simp
  next
    case False
    have "l \<noteq> []"
      using line.prems(2) by (auto simp add: isWhiteSpace_def isLineTerminator_def)
    then show ?thesis
      using line.hyps line.prems(2) False by (simp add: strip_blocks_line)
  qed
qed

lemma skip_block_lines: "set (text_lines (skip_block ys)) \<subseteq> set (text_lines ys) \<union> {[]}"
proof (induction ys rule: text_induct)
  case (last l)
  then show ?case
    by (cases "prefix (js ''Host '') l") (auto simp add: skip_block_host skip_block_last)
next
  case (line l ys)
  show ?case
  proof (cases "prefix (js ''Host '') l")
    case True
    then have "prefix (js ''Host '') (l @ 10 # ys)" by (rule prefix_prefix)
    then show ?thesis by (auto simp add: skip_block_host)
  next
    case False
    have "set (text_lines (skip_block ys)) \<subseteq> set (text_lines ys) \<union> {[]}"
      by (rule line.IH) simp
    then show ?thesis
      using line.hyps False by (auto simp add: skip_block_line text_lines_line)
  qed
qed

lemma strip_blocks_lines:
  "10 \<notin> set a \<Longrightarrow> set (text_lines (strip_blocks a x)) \<subseteq> set (text_lines x) \<union> {[]}"
proof (induction x rule: text_induct)
  case (last l)
  then show ?case by (auto simp add: strip_blocks_last)
next
  case (line l ys)
  show ?case
  proof (cases "l = js ''Host '' @ a")
    case True
    have "set (text_lines (strip_blocks a (skip_block ys)))
            \<subseteq> set (text_lines (skip_block ys)) \<union> {[]}"
      using line.prems by (intro line.IH) (simp_all add: length_skip_block)
    then have s: "set (text_lines (strip_blocks a (skip_block ys))) \<subseteq> set (text_lines ys) \<union> {[]}"
      using skip_block_lines [of ys] by auto
    have tl: "text_lines (l @ 10 # ys) = l # text_lines ys"
      using line.hyps by (rule text_lines_line)
    have sb: "strip_blocks a (l @ 10 # ys) = strip_blocks a (skip_block ys)"
      using True line.prems strip_blocks_header [of a ys] by simp
    show ?thesis
      unfolding tl sb using s by auto
  next
    case False
    have "set (text_lines (strip_blocks a ys)) \<subseteq> set (text_lines ys) \<union> {[]}"
      using line.prems by (intro line.IH) simp_all
    then show ?thesis
      using line.hyps False by (auto simp add: strip_blocks_line text_lines_line)
  qed
qed

lemma strip_blocks_no_header:
  "10 \<notin> set a \<Longrightarrow> terminated x \<Longrightarrow> js ''Host '' @ a \<notin> set (text_lines (strip_blocks a x))"
proof (induction x rule: text_induct)
  case (last l)
  then have "l = []" by (simp add: terminated_last)
  then show ?case by (simp add: strip_blocks_Nil js_def)
next
  case (line l ys)
  have t: "terminated ys" using line.prems(2) by (simp add: terminated_line)
  show ?case
  proof (cases "l = js ''Host '' @ a")
    case True
    have "js ''Host '' @ a \<notin> set (text_lines (strip_blocks a (skip_block ys)))"
      using line.prems(1) t
      by (intro line.IH) (simp_all add: length_skip_block terminated_skip_block)
    then show ?thesis using True line.prems(1) strip_blocks_header [of a ys] by simp
  next
    case False
    have "js ''Host '' @ a \<notin> set (text_lines (strip_blocks a ys))"
      using line.prems(1) t by (intro line.IH) simp_all
    then show ?thesis
      using line.hyps False by (simp add: strip_blocks_line text_lines_line)
  qed
qed

section \<open>Trimming\<close>

lemma trimStart_head: "trimStart v = [] \<or> \<not> isWhiteSpace (hd (trimStart v))"
  unfolding trimStart_def using hd_dropWhile [of isWhiteSpace v] by blast

lemma trimStart_id: "x = [] \<or> \<not> isWhiteSpace (hd x) \<Longrightarrow> trimStart x = x"
  by (cases x) (auto simp add: trimStart_def)

lemma trimStart_append:
  "G \<noteq> [] \<Longrightarrow> \<not> isWhiteSpace (hd G) \<Longrightarrow> trimStart (v @ G) = trimStart v @ G"
  unfolding trimStart_def by (induction v) (auto simp add: neq_Nil_conv)

lemma trimEnd_newline:
  "G \<noteq> [] \<Longrightarrow> \<not> isWhiteSpace (last G) \<Longrightarrow> trimEnd (v @ G @ [10]) = v @ G"
proof -
  assume g: "G \<noteq> []" and l: "\<not> isWhiteSpace (last G)"
  have w: "isWhiteSpace 10" by (simp add: isWhiteSpace_def isLineTerminator_def)
  have "rev G \<noteq> []" "\<not> isWhiteSpace (hd (rev G))" using g l by (simp_all add: hd_rev)
  then have "dropWhile isWhiteSpace (rev G @ rev v) = rev G @ rev v"
    by (cases "rev G") auto
  then show ?thesis using w by (simp add: trimEnd_def)
qed

lemma trim_block:
  assumes "G \<noteq> []" and "\<not> isWhiteSpace (hd G)" and "\<not> isWhiteSpace (last G)"
  shows "trim (v @ G @ [10]) = trimStart v @ G"
proof -
  have "trimStart (v @ G @ [10]) = trimStart v @ G @ [10]"
    using assms(1,2) trimStart_append [of "G @ [10]" v] by simp
  then show ?thesis using assms(1,3) by (simp add: trim_def trimEnd_newline)
qed

lemma trimEnd_prefix: "prefix (trimEnd t) t"
proof -
  have "suffix (dropWhile isWhiteSpace (rev t)) (rev t)" by (rule suffix_dropWhile)
  then have "prefix (rev (dropWhile isWhiteSpace (rev t))) (rev (rev t))"
    unfolding suffix_to_prefix .
  then show ?thesis by (simp add: trimEnd_def)
qed

lemma trim_head: "trim s = [] \<or> \<not> isWhiteSpace (hd (trim s))"
proof (cases "trim s = []")
  case True
  then show ?thesis by simp
next
  case False
  obtain ws where "trimStart s = trim s @ ws"
    using trimEnd_prefix [of "trimStart s"] by (auto simp add: trim_def prefix_def)
  then have "hd (trimStart s) = hd (trim s)" "trimStart s \<noteq> []" using False by auto
  then show ?thesis using trimStart_head [of s] by auto
qed

lemma trim_set: "set (trim s) \<subseteq> set s"
proof -
  have "set (trimEnd t) \<subseteq> set t" for t
    using trimEnd_prefix [of t] by (rule set_mono_prefix)
  then have "set (trim s) \<subseteq> set (trimStart s)" by (simp add: trim_def)
  also have "\<dots> \<subseteq> set s" unfolding trimStart_def by (auto dest: set_dropWhileD)
  finally show ?thesis .
qed

lemma trimStart_separator:
  "u = [] \<or> \<not> isWhiteSpace (hd u) \<Longrightarrow>
   trimStart (u @ [10, 10]) = (if u = [] then [] else u @ [10, 10])"
proof (cases "u = []")
  case True
  then show ?thesis by (simp add: trimStart_def isWhiteSpace_def isLineTerminator_def)
next
  case False
  assume "u = [] \<or> \<not> isWhiteSpace (hd u)"
  then have "\<not> isWhiteSpace (hd (u @ [10, 10]))" using False by simp
  then show ?thesis using False by (simp add: trimStart_id)
qed

section \<open>The shape of a host block\<close>

lemma line_text_no_newline: "line_text l \<Longrightarrow> 10 \<notin> set l"
  by (auto simp add: line_text_def isLineTerminator_def)

lemma line_text_unix: "line_text l \<Longrightarrow> unix_text l"
  by (auto simp add: line_text_def unix_text_def)

lemma line_text_append: "line_text (xs @ ys) = (line_text xs \<and> line_text ys)"
  by (auto simp add: line_text_def)

lemma line_text_literal [simp]:
  "line_text (js ''Host '')" "line_text (js ''  HostName '')" "line_text (js ''  Port '')"
  "line_text (js ''  User '')" "line_text (js ''  IdentityFile '')"
  "line_text (js ''  ForwardAgent no'')" "line_text (js ''  ForwardX11 no'')"
  "line_text (js ''  StrictHostKeyChecking accept-new'')"
  "line_text (js ''  ServerAliveInterval 5'')" "line_text (js ''  ServerAliveCountMax 3'')"
  "line_text (js ''-'')"
  by (simp_all add: line_text_def js_def isLineTerminator_def)

lemma line_text_toString10: "line_text (toString10 n)"
proof (induction n rule: toString10.induct)
  case (1 n)
  have d: "line_text [48 + of_nat k :: code_unit]" if "k < 10" for k
  proof -
    have "k \<in> {0, 1, 2, 3, 4, 5, 6, 7, 8, 9}" using that by auto
    then show ?thesis by (auto simp add: line_text_def isLineTerminator_def)
  qed
  show ?case
  proof (cases "n < 10")
    case True
    then show ?thesis using d by (subst toString10.simps) simp
  next
    case False
    then show ?thesis
      using 1 d [of "n mod 10"] by (subst toString10.simps) (simp add: line_text_append)
  qed
qed

lemma line_text_numberToString: "line_text (numberToString p)"
  by (simp add: numberToString_def line_text_append line_text_toString10)

lemma identity_section:
  "(if join_lines (map (\<lambda>p. js ''  IdentityFile '' @ p) ks) \<noteq> []
    then join_lines (map (\<lambda>p. js ''  IdentityFile '' @ p) ks) @ [10] else [])
   = concat (map (\<lambda>l. l @ [10]) (map (\<lambda>p. js ''  IdentityFile '' @ p) ks))"
proof (induction ks rule: induct_list012)
  case 1
  then show ?case by simp
next
  case (2 k)
  then show ?case by (simp add: js_def)
next
  case (3 k k' ks)
  have "join_lines (map (\<lambda>p. js ''  IdentityFile '' @ p) (k' # ks)) \<noteq> []"
    by (cases ks) (simp_all add: js_def)
  then show ?case using 3(2) by (simp add: js_def)
qed

lemma generateHostConfig_body:
  "generateHostConfig ks x h p u
     = (js ''Host '' @ x) @ 10 # concat (map (\<lambda>l. l @ [10]) (block_body ks h p u))"
proof -
  have n: "js ''\<newline>'' = [10]" by (simp add: js_def)
  have e: "js ''  ForwardAgent no\<newline>'' = js ''  ForwardAgent no'' @ [10]"
    "js ''  ForwardX11 no\<newline>'' = js ''  ForwardX11 no'' @ [10]"
    "js ''  StrictHostKeyChecking accept-new\<newline>'' = js ''  StrictHostKeyChecking accept-new'' @ [10]"
    "js ''  ServerAliveInterval 5\<newline>'' = js ''  ServerAliveInterval 5'' @ [10]"
    "js ''  ServerAliveCountMax 3\<newline>'' = js ''  ServerAliveCountMax 3'' @ [10]"
    by (simp_all add: js_def)
  show ?thesis
    unfolding generateHostConfig_def Let_def n identity_section block_body_def e by simp
qed

lemma indented_line:
  "pre \<noteq> [] \<Longrightarrow> hd pre = 32 \<Longrightarrow> line_text pre \<Longrightarrow> line_text s \<Longrightarrow>
   pre @ s \<noteq> [] \<and> hd (pre @ s) = 32 \<and> line_text (pre @ s)"
  by (simp add: line_text_append)

lemma indent_literal:
  "js ''  HostName '' \<noteq> [] \<and> hd (js ''  HostName '') = 32"
  "js ''  Port '' \<noteq> [] \<and> hd (js ''  Port '') = 32"
  "js ''  User '' \<noteq> [] \<and> hd (js ''  User '') = 32"
  "js ''  IdentityFile '' \<noteq> [] \<and> hd (js ''  IdentityFile '') = 32"
  "js ''  ForwardAgent no'' \<noteq> [] \<and> hd (js ''  ForwardAgent no'') = 32"
  "js ''  ForwardX11 no'' \<noteq> [] \<and> hd (js ''  ForwardX11 no'') = 32"
  "js ''  StrictHostKeyChecking accept-new'' \<noteq> []
     \<and> hd (js ''  StrictHostKeyChecking accept-new'') = 32"
  "js ''  ServerAliveInterval 5'' \<noteq> [] \<and> hd (js ''  ServerAliveInterval 5'') = 32"
  "js ''  ServerAliveCountMax 3'' \<noteq> [] \<and> hd (js ''  ServerAliveCountMax 3'') = 32"
  by (simp_all add: js_def)

lemma generateHostConfig_block:
  assumes "line_text h" and "line_text u" and "\<forall>k \<in> set ks. line_text k"
  shows "host_block x (generateHostConfig ks x h p u)"
proof -
  define Q where "Q = (\<lambda>l :: jsstring. l \<noteq> [] \<and> hd l = 32 \<and> line_text l)"
  have lit: "Q (pre @ s)" if "pre \<noteq> [] \<and> hd pre = 32" and "line_text pre" and "line_text s"
    for pre s
    unfolding Q_def using that by (intro indented_line) simp_all
  have 1: "Q (js ''  HostName '' @ h)" using assms(1) by (intro lit indent_literal) simp_all
  have 2: "Q (js ''  Port '' @ numberToString p)"
    by (intro lit indent_literal) (simp_all add: line_text_numberToString)
  have 3: "Q (js ''  User '' @ u)" using assms(2) by (intro lit indent_literal) simp_all
  have 4: "Q (js ''  IdentityFile '' @ k)" if "k \<in> set ks" for k
    using assms(3) that by (intro lit indent_literal) simp_all
  have e: "line_text []" by (simp add: line_text_def)
  have 5: "Q (js ''  ForwardAgent no'')" "Q (js ''  ForwardX11 no'')"
    "Q (js ''  StrictHostKeyChecking accept-new'')" "Q (js ''  ServerAliveInterval 5'')"
    "Q (js ''  ServerAliveCountMax 3'')"
    using lit [OF indent_literal(5) _ e] lit [OF indent_literal(6) _ e]
      lit [OF indent_literal(7) _ e] lit [OF indent_literal(8) _ e]
      lit [OF indent_literal(9) _ e]
    by simp_all
  have "\<forall>l \<in> set (block_body ks h p u). Q l"
    unfolding block_body_def using 1 2 3 4 5 by auto
  then have all: "\<forall>l \<in> set (block_body ks h p u). l \<noteq> [] \<and> hd l = 32 \<and> line_text l"
    unfolding Q_def .
  have last: "last (block_body ks h p u) = js ''  ServerAliveCountMax 3''"
    by (simp add: block_body_def)
  have "\<not> isWhiteSpace (last (js ''  ServerAliveCountMax 3''))"
    by (simp add: js_def isWhiteSpace_def isLineTerminator_def)
  moreover have "block_body ks h p u \<noteq> []" by (simp add: block_body_def)
  ultimately have "generateHostConfig ks x h p u
          = (js ''Host '' @ x) @ 10 # concat (map (\<lambda>l. l @ [10]) (block_body ks h p u))
        \<and> block_body ks h p u \<noteq> []
        \<and> (\<forall>l \<in> set (block_body ks h p u). l \<noteq> [] \<and> hd l = 32 \<and> line_text l)
        \<and> \<not> isWhiteSpace (last (last (block_body ks h p u)))"
    using generateHostConfig_body [of ks x h p u] all last by simp
  then show ?thesis
    unfolding host_block_def by (rule exI)
qed

lemma indented_not_host: "l \<noteq> [] \<Longrightarrow> hd l = 32 \<Longrightarrow> \<not> prefix (js ''Host '') l"
  by (cases l) (auto simp add: js_def)

lemma indented_not_header: "l \<noteq> [] \<Longrightarrow> hd l = 32 \<Longrightarrow> l \<noteq> js ''Host '' @ a"
  by (cases l) (auto simp add: js_def)

lemma body_skip:
  "\<forall>l \<in> set ls. 10 \<notin> set l \<and> \<not> prefix (js ''Host '') l \<Longrightarrow>
   skip_block (concat (map (\<lambda>l. l @ [10]) ls) @ y) = skip_block y"
proof (induction ls)
  case Nil
  then show ?case by simp
next
  case (Cons l ls)
  have "skip_block (l @ 10 # (concat (map (\<lambda>l. l @ [10]) ls) @ y))
          = skip_block (concat (map (\<lambda>l. l @ [10]) ls) @ y)"
    using Cons.prems by (intro skip_block_line) simp_all
  then show ?case using Cons by simp
qed

lemma body_strip:
  "\<forall>l \<in> set ls. 10 \<notin> set l \<and> l \<noteq> js ''Host '' @ a \<Longrightarrow>
   strip_blocks a (concat (map (\<lambda>l. l @ [10]) ls)) = concat (map (\<lambda>l. l @ [10]) ls)"
proof (induction ls)
  case Nil
  then show ?case by (simp add: strip_blocks_Nil)
next
  case (Cons l ls)
  have "strip_blocks a (l @ 10 # concat (map (\<lambda>l. l @ [10]) ls))
          = l @ 10 # strip_blocks a (concat (map (\<lambda>l. l @ [10]) ls))"
    using Cons.prems by (intro strip_blocks_line) simp_all
  then show ?case using Cons by simp
qed

lemma body_lines:
  "\<forall>l \<in> set ls. 10 \<notin> set l \<Longrightarrow> text_lines (concat (map (\<lambda>l. l @ [10]) ls)) = ls @ [[]]"
proof (induction ls)
  case Nil
  then show ?case by simp
next
  case (Cons l ls)
  have "text_lines (l @ 10 # concat (map (\<lambda>l. l @ [10]) ls))
          = l # text_lines (concat (map (\<lambda>l. l @ [10]) ls))"
    using Cons.prems by (intro text_lines_line) simp
  then show ?case using Cons by simp
qed

lemma header_no_newline: "10 \<notin> set x \<Longrightarrow> 10 \<notin> set (js ''Host '' @ x)"
  by (simp add: js_def)

lemma header_inject: "js ''Host '' @ x = js ''Host '' @ a \<longleftrightarrow> x = a"
  by simp

lemma host_block_strip_own:
  assumes "host_block a blk" and "10 \<notin> set a" and "host_start y"
  shows "strip_blocks a (blk @ 10 # y) = strip_blocks a y"
proof -
  obtain ls where blk: "blk = (js ''Host '' @ a) @ 10 # concat (map (\<lambda>l. l @ [10]) ls)"
    and ls: "\<forall>l \<in> set ls. l \<noteq> [] \<and> hd l = 32 \<and> line_text l"
    using assms(1) unfolding host_block_def by blast
  have "\<forall>l \<in> set ls. 10 \<notin> set l \<and> \<not> prefix (js ''Host '') l"
    using ls by (auto simp add: line_text_no_newline indented_not_host)
  then have "skip_block (concat (map (\<lambda>l. l @ [10]) ls) @ 10 # y) = skip_block (10 # y)"
    by (rule body_skip)
  also have "\<dots> = skip_block y"
    using skip_block_line [of "[]" y] by (simp add: js_def)
  also have "\<dots> = y"
    using assms(3) by (auto simp add: host_start_def skip_block_host skip_block_Nil)
  finally have "skip_block (concat (map (\<lambda>l. l @ [10]) ls) @ 10 # y) = y" .
  then show ?thesis
    unfolding blk
    using strip_blocks_header [OF assms(2), of "concat (map (\<lambda>l. l @ [10]) ls) @ 10 # y"]
    by simp
qed

lemma host_block_strip_other:
  assumes "host_block x blk" and "x \<noteq> a" and "10 \<notin> set x"
  shows "strip_blocks a blk = blk"
proof -
  obtain ls where blk: "blk = (js ''Host '' @ x) @ 10 # concat (map (\<lambda>l. l @ [10]) ls)"
    and ls: "\<forall>l \<in> set ls. l \<noteq> [] \<and> hd l = 32 \<and> line_text l"
    using assms(1) unfolding host_block_def by blast
  have "\<forall>l \<in> set ls. 10 \<notin> set l \<and> l \<noteq> js ''Host '' @ a"
    using ls by (auto simp add: line_text_no_newline indented_not_header)
  then have body: "strip_blocks a (concat (map (\<lambda>l. l @ [10]) ls))
                     = concat (map (\<lambda>l. l @ [10]) ls)"
    by (rule body_strip)
  have "strip_blocks a ((js ''Host '' @ x) @ 10 # concat (map (\<lambda>l. l @ [10]) ls))
          = (js ''Host '' @ x) @ 10 # strip_blocks a (concat (map (\<lambda>l. l @ [10]) ls))"
    using assms(2) header_no_newline [OF assms(3)] by (intro strip_blocks_line) simp_all
  then show ?thesis unfolding blk body .
qed

lemma host_block_start: "host_block x blk \<Longrightarrow> host_start blk \<and> blk \<noteq> []"
  unfolding host_block_def host_start_def by auto

lemma host_block_unix: "host_block x blk \<Longrightarrow> line_text x \<Longrightarrow> unix_text blk"
proof -
  assume "host_block x blk" and x: "line_text x"
  then obtain ls where blk: "blk = (js ''Host '' @ x) @ 10 # concat (map (\<lambda>l. l @ [10]) ls)"
    and ls: "\<forall>l \<in> set ls. l \<noteq> [] \<and> hd l = 32 \<and> line_text l"
    unfolding host_block_def by blast
  have "\<forall>c \<in> set blk. isLineTerminator c \<longrightarrow> c = 10"
    unfolding blk using ls x line_text_literal(1)
    by (auto simp add: line_text_def)
  then show ?thesis by (simp add: unix_text_def)
qed

lemma host_block_trimmed:
  assumes "host_block x blk"
  shows "\<exists>G. blk = G @ [10] \<and> G \<noteq> [] \<and> \<not> isWhiteSpace (hd G) \<and> \<not> isWhiteSpace (last G)"
proof -
  obtain ls where blk: "blk = (js ''Host '' @ x) @ 10 # concat (map (\<lambda>l. l @ [10]) ls)"
    and ne: "ls \<noteq> []"
    and ls: "\<forall>l \<in> set ls. l \<noteq> [] \<and> hd l = 32 \<and> line_text l"
    and w: "\<not> isWhiteSpace (last (last ls))"
    using assms unfolding host_block_def by blast
  let ?G = "(js ''Host '' @ x) @ 10 # concat (map (\<lambda>l. l @ [10]) (butlast ls)) @ last ls"
  have id: "butlast ls @ [last ls] = ls" using ne by simp
  have "concat (map (\<lambda>l. l @ [10]) ls)
          = concat (map (\<lambda>l. l @ [10]) (butlast ls @ [last ls]))"
    by (simp only: id)
  also have "\<dots> = concat (map (\<lambda>l. l @ [10]) (butlast ls)) @ last ls @ [10]"
    by simp
  finally have 1: "blk = ?G @ [10]" unfolding blk by simp
  have "last ls \<noteq> []" using ls ne by simp
  then have 2: "last ?G = last (last ls)" by simp
  have 3: "hd ?G = 72" by (simp add: js_def)
  have "\<not> isWhiteSpace 72" by (simp add: isWhiteSpace_def isLineTerminator_def)
  then show ?thesis using 1 2 3 w by (intro exI [of _ ?G]) simp
qed

lemma host_block_lines:
  assumes "host_block x blk" and "10 \<notin> set x"
  shows "count_list (text_lines blk) (js ''Host '' @ a) = (if a = x then 1 else 0)"
proof -
  obtain ls where blk: "blk = (js ''Host '' @ x) @ 10 # concat (map (\<lambda>l. l @ [10]) ls)"
    and ls: "\<forall>l \<in> set ls. l \<noteq> [] \<and> hd l = 32 \<and> line_text l"
    using assms(1) unfolding host_block_def by blast
  have "\<forall>l \<in> set ls. 10 \<notin> set l" using ls by (auto simp add: line_text_no_newline)
  then have "text_lines (concat (map (\<lambda>l. l @ [10]) ls)) = ls @ [[]]" by (rule body_lines)
  then have lines: "text_lines blk = (js ''Host '' @ x) # ls @ [[]]"
    unfolding blk using text_lines_line [OF header_no_newline [OF assms(2)]] by simp
  have "js ''Host '' @ a \<notin> set ls" using ls indented_not_header by blast
  then have "count_list ls (js ''Host '' @ a) = 0" by simp
  moreover have "js ''Host '' @ a \<noteq> []" by (simp add: js_def)
  ultimately show ?thesis unfolding lines by auto
qed

lemma host_block_terminated: "host_block x blk \<Longrightarrow> terminated blk"
  using host_block_trimmed [of x blk] by (auto simp add: terminated_def)

section \<open>One write\<close>

lemma writeHostConfig_step:
  assumes "host_block x (generateHostConfig ks x h p u)" and "unix_text c" and "10 \<notin> set x"
    and "pattern_text x"
  shows "writeHostConfig ks x h p u (Some c)
           = Some (trimStart (trim (strip_blocks x c) @ [10, 10]) @ generateHostConfig ks x h p u)"
proof -
  obtain G where g: "generateHostConfig ks x h p u = G @ [10]" "G \<noteq> []"
    "\<not> isWhiteSpace (hd G)" "\<not> isWhiteSpace (last G)"
    using host_block_trimmed [OF assms(1)] by blast
  have n: "js ''\<newline>\<newline>'' = [10, 10]" "js ''\<newline>'' = [10]" by (simp_all add: js_def)
  have "trim ((trim (strip_blocks x c) @ [10, 10]) @ G @ [10])
          = trimStart (trim (strip_blocks x c) @ [10, 10]) @ G"
    using g(2-4) by (rule trim_block)
  then show ?thesis
    using assms(2,3,4) g(1)
    by (simp add: writeHostConfig_def Let_def replace_all_strip_blocks n)
qed

lemma text_lines_nonempty: "text_lines x \<noteq> []"
  by (induction x) (auto split: list.splits)

lemma text_lines_append: "text_lines (q @ 10 # r) = text_lines q @ text_lines r"
proof (induction q)
  case Nil
  then show ?case by simp
next
  case (Cons c q)
  then show ?case
    using text_lines_nonempty [of q] by (cases "text_lines q") auto
qed

lemma count_lines_append:
  assumes "terminated p" and "z \<noteq> []"
  shows "count_list (text_lines (p @ y)) z
           = count_list (text_lines p) z + count_list (text_lines y) z"
proof (cases "p = []")
  case True
  then show ?thesis using assms(2) by simp
next
  case False
  then have "p = butlast p @ [10]"
    using assms(1) append_butlast_last_id [of p] by (simp add: terminated_def)
  then obtain q where p: "p = q @ [10]" ..
  have "text_lines (q @ 10 # y) = text_lines q @ text_lines y"
    "text_lines (q @ 10 # []) = text_lines q @ text_lines []"
    by (rule text_lines_append)+
  then show ?thesis unfolding p using assms(2) by simp
qed

lemma split_from_lines:
  "split_from [10] acc xs = (rev acc @ hd (text_lines xs)) # tl (text_lines xs)"
proof (induction xs arbitrary: acc)
  case Nil
  then show ?case by (subst split_from.simps) simp
next
  case (Cons x xs)
  show ?case
  proof (cases "x = 10")
    case True
    then show ?thesis using Cons [of "[]"] text_lines_nonempty [of xs]
      by (subst split_from.simps) simp
  next
    case False
    then show ?thesis using Cons [of "x # acc"] text_lines_nonempty [of xs]
      by (subst split_from.simps) (simp split: list.splits)
  qed
qed

text \<open>The lines of a text are what \<^verbatim>\<open>split("\n")\<close> returns.\<close>

lemma js_split_lines: "js_split s (js ''\<newline>'') = text_lines s"
  using split_from_lines [of "[]" s] text_lines_nonempty [of s]
  by (simp add: js_split_def js_def)

section \<open>Three writes\<close>

lemma writeHostConfig_None:
  "writeHostConfig ks x h p u None = writeHostConfig ks x h p u (Some [])"
  by (simp add: writeHostConfig_def)

lemma unix_text_append: "unix_text (xs @ ys) = (unix_text xs \<and> unix_text ys)"
  by (auto simp add: unix_text_def)

lemma kept_text_lines_aux:
  "text_lines (u @ [10, 10]) = text_lines u @ [[], []]"
  using text_lines_append [of u "[10]"] by simp

text \<open>
  The three writes, step by step: what they leave is \<open>kept_text\<close> of the old
  configuration, the block of the second alias as it was written, a blank line and the
  latest block of the first alias, with one \<open>Host\<close> line for each of the two aliases.
\<close>

lemma three_writes:
  assumes "unix_text old" and "a \<noteq> b"
    and "pattern_text a" and "pattern_text b" and "line_text a" and "line_text b"
    and "line_text h1" and "line_text u1" and "\<forall>k \<in> set k1. line_text k"
    and "line_text h2" and "line_text u2" and "\<forall>k \<in> set k2. line_text k"
    and "line_text h3" and "line_text u3" and "\<forall>k \<in> set k3. line_text k"
  shows "writeHostConfig k3 a h3 p3 u3
           (writeHostConfig k2 b h2 p2 u2 (writeHostConfig k1 a h1 p1 u1 (Some old)))
         = Some (kept_text a b old @ generateHostConfig k2 b h2 p2 u2 @ js ''\<newline>''
                 @ generateHostConfig k3 a h3 p3 u3)
       \<and> count_list
           (text_lines (kept_text a b old @ generateHostConfig k2 b h2 p2 u2 @ js ''\<newline>''
                        @ generateHostConfig k3 a h3 p3 u3))
           (js ''Host '' @ a) = 1
       \<and> count_list
           (text_lines (kept_text a b old @ generateHostConfig k2 b h2 p2 u2 @ js ''\<newline>''
                        @ generateHostConfig k3 a h3 p3 u3))
           (js ''Host '' @ b) = 1
       \<and> set (text_lines (kept_text a b old))
           \<subseteq> set (text_lines (trim (strip_blocks a old))) \<union> {[]}"
proof -
  let ?A1 = "generateHostConfig k1 a h1 p1 u1"
  let ?B = "generateHostConfig k2 b h2 p2 u2"
  let ?A3 = "generateHostConfig k3 a h3 p3 u3"
  let ?u = "trim (strip_blocks a old)"
  let ?w1 = "trimStart (?u @ [10, 10])"
  let ?s1 = "strip_blocks b ?w1"
  let ?s2 = "strip_blocks a ?s1"
  have na: "10 \<notin> set a" and nb: "10 \<notin> set b"
    using assms(5,6) by (simp_all add: line_text_no_newline)
  have hA1: "host_block a ?A1" using assms(7-9) by (rule generateHostConfig_block)
  have hB: "host_block b ?B" using assms(10-12) by (rule generateHostConfig_block)
  have hA3: "host_block a ?A3" using assms(13-15) by (rule generateHostConfig_block)
  obtain G1 where g1: "?A1 = G1 @ [10]" "G1 \<noteq> []" "\<not> isWhiteSpace (hd G1)"
    "\<not> isWhiteSpace (last G1)"
    using host_block_trimmed [OF hA1] by blast
  obtain G2 where g2: "?B = G2 @ [10]" "G2 \<noteq> []" "\<not> isWhiteSpace (hd G2)"
    "\<not> isWhiteSpace (last G2)"
    using host_block_trimmed [OF hB] by blast
  have n: "js ''\<newline>'' = [10]" by (simp add: js_def)

  \<comment> \<open>the first write\<close>
  have w1: "?w1 = (if ?u = [] then [] else ?u @ [10, 10])"
    using trim_head [of "strip_blocks a old"] by (rule trimStart_separator)
  have w1_term: "terminated ?w1" unfolding w1 by (simp add: terminated_def)
  have w1_head: "?w1 = [] \<or> \<not> isWhiteSpace (hd ?w1)" by (rule trimStart_head)
  have "set ?u \<subseteq> set old"
    using trim_set [of "strip_blocks a old"] strip_blocks_set [OF na, of old] by blast
  then have "unix_text ?u" using assms(1) by (rule unix_text_subset [rotated])
  then have w1_unix: "unix_text ?w1"
    unfolding w1 by (simp add: unix_text_append) (simp add: unix_text_def)
  have c1: "writeHostConfig k1 a h1 p1 u1 (Some old) = Some (?w1 @ ?A1)"
    using hA1 assms(1) na assms(3) by (rule writeHostConfig_step)
  have c1_unix: "unix_text (?w1 @ ?A1)"
    using w1_unix host_block_unix [OF hA1 assms(5)] by (simp add: unix_text_append)

  \<comment> \<open>the second write\<close>
  have "strip_blocks b (?w1 @ ?A1) = ?s1 @ strip_blocks b ?A1"
    using nb w1_term host_block_start [OF hA1] by (intro strip_blocks_append) simp_all
  then have sb: "strip_blocks b (?w1 @ ?A1) = ?s1 @ G1 @ [10]"
    using host_block_strip_other [OF hA1 assms(2) na] g1(1) by simp
  have s1_head: "?s1 = [] \<or> \<not> isWhiteSpace (hd ?s1)"
    using nb w1_head by (rule strip_blocks_no_leading_space)
  have s1_term: "terminated ?s1" using nb w1_term by (rule strip_blocks_terminated)
  have s1_unix: "unix_text ?s1"
    using w1_unix strip_blocks_set [OF nb, of ?w1] by (rule unix_text_subset)
  have "trim (?s1 @ G1 @ [10]) = trimStart ?s1 @ G1" using g1(2-4) by (rule trim_block)
  then have t2: "trim (strip_blocks b (?w1 @ ?A1)) = ?s1 @ G1"
    using sb s1_head by (simp add: trimStart_id)
  have "(?s1 @ G1) @ [10, 10] = [] \<or> \<not> isWhiteSpace (hd ((?s1 @ G1) @ [10, 10]))"
    using s1_head g1(2,3) by (cases "?s1 = []") simp_all
  then have "trimStart ((?s1 @ G1) @ [10, 10]) = (?s1 @ G1) @ [10, 10]"
    by (rule trimStart_id)
  then have sep2: "trimStart (trim (strip_blocks b (?w1 @ ?A1)) @ [10, 10]) @ ?B
                     = ?s1 @ ?A1 @ 10 # ?B"
    unfolding t2 using g1(1) by simp
  have c2: "writeHostConfig k2 b h2 p2 u2 (Some (?w1 @ ?A1)) = Some (?s1 @ ?A1 @ 10 # ?B)"
    using writeHostConfig_step [OF hB c1_unix nb assms(4)] sep2 by simp
  have c2_unix: "unix_text (?s1 @ ?A1 @ 10 # ?B)"
    using s1_unix host_block_unix [OF hA1 assms(5)] host_block_unix [OF hB assms(6)]
    by (simp add: unix_text_append) (simp add: unix_text_def)

  \<comment> \<open>the third write\<close>
  have "host_start (?A1 @ 10 # ?B)"
    using host_block_start [OF hA1] by (auto simp add: host_start_def prefix_def)
  then have "strip_blocks a (?s1 @ ?A1 @ 10 # ?B) = ?s2 @ strip_blocks a (?A1 @ 10 # ?B)"
    using na s1_term by (intro strip_blocks_append) simp_all
  also have "strip_blocks a (?A1 @ 10 # ?B) = strip_blocks a ?B"
    using hA1 na host_block_start [OF hB] by (intro host_block_strip_own) simp_all
  also have "strip_blocks a ?B = G2 @ [10]"
    using host_block_strip_other [OF hB _ nb, of a] assms(2) g2(1) by simp
  finally have sa: "strip_blocks a (?s1 @ ?A1 @ 10 # ?B) = ?s2 @ G2 @ [10]" .
  have s2_head: "?s2 = [] \<or> \<not> isWhiteSpace (hd ?s2)"
    using na s1_head by (rule strip_blocks_no_leading_space)
  have s2_term: "terminated ?s2" using na s1_term by (rule strip_blocks_terminated)
  have "trim (?s2 @ G2 @ [10]) = trimStart ?s2 @ G2" using g2(2-4) by (rule trim_block)
  then have t3: "trim (strip_blocks a (?s1 @ ?A1 @ 10 # ?B)) = ?s2 @ G2"
    using sa s2_head by (simp add: trimStart_id)
  have "(?s2 @ G2) @ [10, 10] = [] \<or> \<not> isWhiteSpace (hd ((?s2 @ G2) @ [10, 10]))"
    using s2_head g2(2,3) by (cases "?s2 = []") simp_all
  then have "trimStart ((?s2 @ G2) @ [10, 10]) = (?s2 @ G2) @ [10, 10]"
    by (rule trimStart_id)
  then have sep3: "trimStart (trim (strip_blocks a (?s1 @ ?A1 @ 10 # ?B)) @ [10, 10]) @ ?A3
                     = ?s2 @ ?B @ 10 # ?A3"
    unfolding t3 using g2(1) by simp
  have c3: "writeHostConfig k3 a h3 p3 u3 (Some (?s1 @ ?A1 @ 10 # ?B))
              = Some (?s2 @ ?B @ 10 # ?A3)"
    using writeHostConfig_step [OF hA3 c2_unix na assms(3)] sep3 by simp

  \<comment> \<open>what is kept\<close>
  have kept: "kept_text a b old = ?s2"
    unfolding kept_text_def Let_def w1 by (simp add: strip_blocks_Nil js_def)
  have final: "writeHostConfig k3 a h3 p3 u3
           (writeHostConfig k2 b h2 p2 u2 (writeHostConfig k1 a h1 p1 u1 (Some old)))
         = Some (kept_text a b old @ ?B @ js ''\<newline>'' @ ?A3)"
    unfolding c1 c2 c3 kept n by simp

  \<comment> \<open>the lines\<close>
  have no_a: "js ''Host '' @ a \<notin> set (text_lines ?s2)"
    using na s1_term by (rule strip_blocks_no_header)
  have "js ''Host '' @ b \<notin> set (text_lines ?s1)"
    using nb w1_term by (rule strip_blocks_no_header)
  moreover have "js ''Host '' @ b \<noteq> []" by (simp add: js_def)
  ultimately have no_b: "js ''Host '' @ b \<notin> set (text_lines ?s2)"
    using strip_blocks_lines [OF na, of ?s1] by blast
  have cnt: "count_list (text_lines (?s2 @ ?B @ [10] @ ?A3)) (js ''Host '' @ x)
               = count_list (text_lines ?s2) (js ''Host '' @ x)
                 + (count_list (text_lines ?B) (js ''Host '' @ x)
                    + count_list (text_lines ?A3) (js ''Host '' @ x))" for x
  proof -
    have z: "js ''Host '' @ x \<noteq> []" by (simp add: js_def)
    have t: "terminated [10]" by (simp add: terminated_def)
    have "count_list (text_lines ([10] @ ?A3)) (js ''Host '' @ x)
            = count_list (text_lines ?A3) (js ''Host '' @ x)"
      using count_lines_append [OF t z, of ?A3] z by simp
    then have "count_list (text_lines (?B @ [10] @ ?A3)) (js ''Host '' @ x)
            = count_list (text_lines ?B) (js ''Host '' @ x)
              + count_list (text_lines ?A3) (js ''Host '' @ x)"
      using count_lines_append [OF host_block_terminated [OF hB] z, of "[10] @ ?A3"] by simp
    then show ?thesis
      using count_lines_append [OF s2_term z, of "?B @ [10] @ ?A3"] by simp
  qed
  have one_a: "count_list (text_lines (kept_text a b old @ ?B @ js ''\<newline>'' @ ?A3))
                 (js ''Host '' @ a) = 1"
    unfolding kept n cnt
    using no_a host_block_lines [OF hB nb, of a] host_block_lines [OF hA3 na, of a] assms(2)
    by simp
  have one_b: "count_list (text_lines (kept_text a b old @ ?B @ js ''\<newline>'' @ ?A3))
                 (js ''Host '' @ b) = 1"
    unfolding kept n cnt
    using no_b host_block_lines [OF hB nb, of b] host_block_lines [OF hA3 na, of b] assms(2)
    by simp
  have "set (text_lines ?s2) \<subseteq> set (text_lines ?w1) \<union> {[]}"
    using strip_blocks_lines [OF na, of ?s1] strip_blocks_lines [OF nb, of ?w1] by blast
  moreover have "set (text_lines ?w1) \<subseteq> set (text_lines ?u) \<union> {[]}"
    unfolding w1 by (auto simp add: kept_text_lines_aux)
  ultimately have sub: "set (text_lines (kept_text a b old))
           \<subseteq> set (text_lines (trim (strip_blocks a old))) \<union> {[]}"
    unfolding kept by blast
  from final one_a one_b sub show ?thesis by blast
qed

section \<open>Trimming and lines\<close>

lemma blank_Nil [simp]: "blank []"
  by (simp add: blank_def)

lemma blank_append [simp]: "blank (p @ q) = (blank p \<and> blank q)"
  by (auto simp add: blank_def)

lemma blank_Cons [simp]: "blank (c # q) = (isWhiteSpace c \<and> blank q)"
  by (simp add: blank_def)

lemma isWhiteSpace_newline [simp]: "isWhiteSpace 10"
  by (simp add: isWhiteSpace_def isLineTerminator_def)

lemma trimStart_blank: "trimStart s = [] \<longleftrightarrow> blank s"
  by (simp add: trimStart_def blank_def dropWhile_eq_Nil_conv)

lemma trimEnd_blank: "trimEnd s = [] \<longleftrightarrow> blank s"
  by (simp add: trimEnd_def blank_def dropWhile_eq_Nil_conv)

lemma trimStart_suffix: "suffix (trimStart s) s"
  by (simp add: trimStart_def suffix_dropWhile)

lemma trimStart_set: "set (trimStart s) \<subseteq> set s"
  using trimStart_suffix [of s] by (rule set_mono_suffix)

lemma trimEnd_set: "set (trimEnd s) \<subseteq> set s"
  using trimEnd_prefix [of s] by (rule set_mono_prefix)

lemma trimStart_split:
  "trimStart (p @ q) = (if blank p then trimStart q else trimStart p @ q)"
proof (cases "blank p")
  case True
  then show ?thesis by (simp add: trimStart_def blank_def dropWhile_append2)
next
  case False
  then obtain c where "c \<in> set p" "\<not> isWhiteSpace c" by (auto simp add: blank_def)
  then show ?thesis using False by (simp add: trimStart_def dropWhile_append1)
qed

lemma trimEnd_split:
  "trimEnd (p @ q) = (if blank q then trimEnd p else p @ trimEnd q)"
proof (cases "blank q")
  case True
  have "dropWhile isWhiteSpace (rev q @ rev p) = dropWhile isWhiteSpace (rev p)"
    using True by (intro dropWhile_append2) (simp add: blank_def)
  then show ?thesis using True by (simp add: trimEnd_def)
next
  case False
  then obtain c where c: "c \<in> set (rev q)" "\<not> isWhiteSpace c" by (auto simp add: blank_def)
  have "dropWhile isWhiteSpace (rev q @ rev p) = dropWhile isWhiteSpace (rev q) @ rev p"
    using c by (rule dropWhile_append1)
  then show ?thesis using False by (simp add: trimEnd_def)
qed

lemma trimStart_line:
  "trimStart (l @ 10 # ys) = (if blank l then trimStart ys else trimStart l @ 10 # ys)"
  using trimStart_split [of l "10 # ys"] trimStart_split [of "[10]" ys] by simp

lemma trimEnd_line:
  "trimEnd (l @ 10 # ys) = (if blank ys then trimEnd l else l @ 10 # trimEnd ys)"
  using trimEnd_split [of "l @ [10]" ys] trimEnd_split [of l "[10]"] by simp

lemma trimEnd_separator: "trimEnd (s @ [10, 10]) = trimEnd s"
  using trimEnd_split [of s "[10, 10]"] by simp

lemma trimEnd_id: "x = [] \<or> \<not> isWhiteSpace (last x) \<Longrightarrow> trimEnd x = x"
  by (cases x rule: rev_cases) (simp_all add: trimEnd_def)

lemma trimEnd_last: "trimEnd s = [] \<or> \<not> isWhiteSpace (last (trimEnd s))"
proof -
  have "dropWhile isWhiteSpace (rev s) = []
        \<or> \<not> isWhiteSpace (hd (dropWhile isWhiteSpace (rev s)))"
    using hd_dropWhile [of isWhiteSpace "rev s"] by blast
  then show ?thesis by (auto simp add: trimEnd_def last_rev)
qed

lemma trimEnd_rest: "\<exists>w. blank w \<and> s = trimEnd s @ w"
proof -
  have "rev s = takeWhile isWhiteSpace (rev s) @ dropWhile isWhiteSpace (rev s)" by simp
  then have "s = rev (dropWhile isWhiteSpace (rev s)) @ rev (takeWhile isWhiteSpace (rev s))"
    by (metis rev_append rev_rev_ident)
  moreover have "blank (rev (takeWhile isWhiteSpace (rev s)))"
    by (auto simp add: blank_def dest: set_takeWhileD)
  ultimately show ?thesis unfolding trimEnd_def by blast
qed

lemma trim_fixed: "trim l = l \<Longrightarrow> trimStart l = l \<and> trimEnd l = l"
proof -
  assume t: "trim l = l"
  have "length (trimEnd (trimStart l)) \<le> length (trimStart l)"
    using trimEnd_prefix [of "trimStart l"] by (rule prefix_length_le)
  moreover have "length (trimStart l) \<le> length l"
    using trimStart_suffix [of l] by (rule suffix_length_le)
  ultimately have "length (trimStart l) = length l" using t by (simp add: trim_def)
  then have s: "trimStart l = l"
    using trimStart_suffix [of l] by (metis suffix_order.eq_iff suffix_length_suffix order_refl)
  then show ?thesis using t by (simp add: trim_def)
qed

lemma trim_blank: "trim s = [] \<longleftrightarrow> blank s"
proof
  assume "trim s = []"
  then have "blank (trimStart s)" by (simp add: trim_def trimEnd_blank)
  then show "blank s"
    unfolding blank_def trimStart_def
    by (metis (mono_tags, lifting) dropWhile_eq_Nil_conv hd_dropWhile list.set_sel(1))
next
  assume "blank s"
  then have "trimStart s = []" by (simp add: trimStart_blank)
  then show "trim s = []" by (simp add: trim_def trimEnd_def)
qed

section \<open>Host lines and white space\<close>

lemma host_word: "\<not> isWhiteSpace 72"
  by (simp add: isWhiteSpace_def isLineTerminator_def)

lemma host_literal: "js ''Host '' = 72 # js ''ost ''" "js ''Host'' = 72 # js ''ost''"
  "js ''Host '' = js ''Host'' @ [32]"
  by (simp_all add: js_def)

lemma isWhiteSpace_space [simp]: "isWhiteSpace 32"
  by (simp add: isWhiteSpace_def)

lemma host_space_prefix: "prefix (js ''Host'') (js ''Host '' @ r)"
  by (simp add: js_def)

lemma host_head: "prefix (js ''Host'') l \<Longrightarrow> l \<noteq> [] \<and> hd l = 72"
  by (auto simp add: prefix_def js_def)

lemma trimStart_host: "prefix (js ''Host'') l \<Longrightarrow> trimStart l = l"
  using host_head [of l] host_word by (intro trimStart_id) simp

lemma trim_host_word: "trim (js ''Host'') = js ''Host''"
  by (simp add: trim_def trimStart_def trimEnd_def js_def isWhiteSpace_def isLineTerminator_def)

lemma word_text_no_newline: "word_text x \<Longrightarrow> 10 \<notin> set x"
  by (auto simp add: word_text_def)

lemma word_text_line: "word_text x \<Longrightarrow> line_text x"
  by (auto simp add: word_text_def line_text_def isWhiteSpace_def)

lemma trim_header:
  assumes "word_text x"
  shows "trim (js ''Host '' @ x) = (if x = [] then js ''Host'' else js ''Host '' @ x)"
proof (cases "x = []")
  case True
  have "trim (js ''Host '') = js ''Host''"
    by (simp add: trim_def trimStart_def trimEnd_def js_def isWhiteSpace_def
        isLineTerminator_def)
  then show ?thesis using True by simp
next
  case False
  then have "\<not> isWhiteSpace (last (js ''Host '' @ x))"
    using assms by (simp add: word_text_def)
  then have "trimEnd (js ''Host '' @ x) = js ''Host '' @ x" by (intro trimEnd_id) simp
  moreover have "trimStart (js ''Host '' @ x) = js ''Host '' @ x"
    by (intro trimStart_host host_space_prefix)
  ultimately show ?thesis using False by (simp add: trim_def)
qed

text \<open>
  A line that is plain for the alias: when trimming makes it \<open>Host\<close> or the \<open>Host\<close>
  line of the alias, it is that already.
\<close>

lemma plain_trimStart:
  assumes "word_text x"
    and "trim l = js ''Host'' \<or> trim l = js ''Host '' @ x \<longrightarrow> trim l = l"
    and "trimStart l = js ''Host '' @ x"
  shows "l = js ''Host '' @ x"
proof -
  have "trimStart (js ''Host '' @ x) = js ''Host '' @ x"
    by (intro trimStart_host host_space_prefix)
  then have "trim l = trim (js ''Host '' @ x)"
    using assms(3) by (simp add: trim_def)
  then have "trim l = js ''Host'' \<or> trim l = js ''Host '' @ x"
    using trim_header [OF assms(1)] by (cases "x = []") simp_all
  then have "trim l = l" using assms(2) by blast
  then have "trimStart l = l" by (simp add: trim_fixed)
  then show ?thesis using assms(3) by simp
qed

lemma plain_trimEnd:
  assumes "word_text x"
    and "trim l = js ''Host'' \<or> trim l = js ''Host '' @ x \<longrightarrow> trim l = l"
    and "trimEnd l = js ''Host '' @ x"
  shows "l = js ''Host '' @ x"
proof -
  have "prefix (js ''Host '' @ x) l" using trimEnd_prefix [of l] assms(3) by simp
  then have "prefix (js ''Host'') l"
    using host_space_prefix [of x] by (rule prefix_order.trans [rotated])
  then have "trimStart l = l" by (rule trimStart_host)
  then have t: "trim l = js ''Host '' @ x" using assms(3) by (simp add: trim_def)
  then have "trim l = l" using assms(2) by blast
  then show ?thesis using t by simp
qed

lemma plain_prefix:
  assumes "trim l = js ''Host'' \<longrightarrow> trim l = l"
    and "prefix (js ''Host '') l"
  shows "prefix (js ''Host '') (trimEnd l)"
proof -
  obtain r where r: "l = js ''Host '' @ r" using assms(2) by (auto simp add: prefix_def)
  have "prefix (js ''Host'') l"
    using host_space_prefix [of r] unfolding r .
  then have s: "trimStart l = l" by (rule trimStart_host)
  show ?thesis
  proof (cases "blank r")
    case True
    have "trimEnd l = trimEnd (js ''Host '')"
      unfolding r using True trimEnd_split [of "js ''Host ''" r] by simp
    also have "\<dots> = js ''Host''"
      by (simp add: trimEnd_def js_def isWhiteSpace_def isLineTerminator_def)
    finally have "trim l = js ''Host''" using s by (simp add: trim_def)
    then have "l = js ''Host''" using assms(1) by simp
    then show ?thesis using r by (simp add: js_def)
  next
    case False
    then have "trimEnd l = js ''Host '' @ trimEnd r"
      unfolding r using trimEnd_split [of "js ''Host ''" r] by simp
    then show ?thesis by simp
  qed
qed

lemma trimEnd_no_new_prefix:
  "prefix (js ''Host '') (trimEnd l) \<Longrightarrow> prefix (js ''Host '') l"
  using trimEnd_prefix [of l] by (rule prefix_order.trans [rotated])

lemma blank_not_header: "blank l \<Longrightarrow> l \<noteq> js ''Host '' @ x"
  by (auto simp add: host_literal host_word)

lemma blank_not_host: "blank l \<Longrightarrow> \<not> prefix (js ''Host '') l"
  by (auto simp add: prefix_def host_literal host_word)

section \<open>The lines of a trimmed text\<close>

lemma text_lines_trimStart:
  "set (text_lines (trimStart s)) \<subseteq> set (text_lines s) \<union> trimStart ` set (text_lines s)"
proof (induction s rule: text_induct)
  case (last l)
  then have "10 \<notin> set (trimStart l)" using trimStart_set [of l] by blast
  then show ?case using last by (simp add: text_lines_last)
next
  case (line l ys)
  have ih: "set (text_lines (trimStart ys))
              \<subseteq> set (text_lines ys) \<union> trimStart ` set (text_lines ys)"
    by (rule line(2)) simp
  have n: "10 \<notin> set (trimStart l)" using line(1) trimStart_set [of l] by blast
  show ?case
  proof (cases "blank l")
    case True
    then show ?thesis using ih line(1) by (auto simp add: trimStart_line text_lines_line)
  next
    case False
    then show ?thesis using line(1) n by (auto simp add: trimStart_line text_lines_line)
  qed
qed

lemma text_lines_trimEnd:
  "set (text_lines (trimEnd s)) \<subseteq> set (text_lines s) \<union> trimEnd ` set (text_lines s)"
proof (induction s rule: text_induct)
  case (last l)
  then have "10 \<notin> set (trimEnd l)" using trimEnd_set [of l] by blast
  then show ?case using last by (simp add: text_lines_last)
next
  case (line l ys)
  have ih: "set (text_lines (trimEnd ys))
              \<subseteq> set (text_lines ys) \<union> trimEnd ` set (text_lines ys)"
    by (rule line(2)) simp
  have n: "10 \<notin> set (trimEnd l)" using line(1) trimEnd_set [of l] by blast
  show ?case
  proof (cases "blank ys")
    case True
    then show ?thesis using line(1) n by (simp add: trimEnd_line text_lines_line text_lines_last)
  next
    case False
    then show ?thesis using ih line(1) by (auto simp add: trimEnd_line text_lines_line)
  qed
qed

lemma plain_hosts_line: "10 \<notin> set l \<Longrightarrow> plain_hosts x (l @ 10 # ys) \<Longrightarrow> plain_hosts x ys"
  by (simp add: plain_hosts_def text_lines_line)

lemma plain_hosts_subset:
  "plain_hosts x s \<Longrightarrow> set (text_lines t) \<subseteq> set (text_lines s) \<union> {[]} \<Longrightarrow> plain_hosts x t"
  unfolding plain_hosts_def
proof
  fix l
  assume p: "\<forall>l \<in> set (text_lines s).
               trim l = js ''Host'' \<or> trim l = js ''Host '' @ x \<longrightarrow> trim l = l"
    and s: "set (text_lines t) \<subseteq> set (text_lines s) \<union> {[]}"
    and l: "l \<in> set (text_lines t)"
  show "trim l = js ''Host'' \<or> trim l = js ''Host '' @ x \<longrightarrow> trim l = l"
  proof (cases "l = []")
    case True
    then show ?thesis by (simp add: trim_def trimStart_def trimEnd_def)
  next
    case False
    then have "l \<in> set (text_lines s)" using s l by blast
    then show ?thesis using p by blast
  qed
qed

lemma plain_hosts_trimStart:
  assumes "plain_hosts x s"
  shows "plain_hosts x (trimStart s)"
  unfolding plain_hosts_def
proof
  fix l'
  assume l': "l' \<in> set (text_lines (trimStart s))"
  show "trim l' = js ''Host'' \<or> trim l' = js ''Host '' @ x \<longrightarrow> trim l' = l'"
  proof
    assume t: "trim l' = js ''Host'' \<or> trim l' = js ''Host '' @ x"
    consider "l' \<in> set (text_lines s)"
      | l where "l \<in> set (text_lines s)" "l' = trimStart l"
      using l' text_lines_trimStart [of s] by blast
    then show "trim l' = l'"
    proof cases
      case 1
      then show ?thesis using assms t unfolding plain_hosts_def by blast
    next
      case 2
      have i: "trimStart (trimStart l) = trimStart l"
        using trimStart_head [of l] by (rule trimStart_id)
      then have e: "trim l' = trim l" using 2(2) by (simp add: trim_def)
      have p: "trim l = js ''Host'' \<or> trim l = js ''Host '' @ x \<longrightarrow> trim l = l"
        using assms 2(1) unfolding plain_hosts_def by blast
      have f: "trim l = l" using p t unfolding e by blast
      then have "trimStart l = l" by (simp add: trim_fixed)
      then show ?thesis using 2(2) f by simp
    qed
  qed
qed

lemma strip_blocks_id:
  "10 \<notin> set x \<Longrightarrow> js ''Host '' @ x \<notin> set (text_lines s) \<Longrightarrow> strip_blocks x s = s"
proof (induction s rule: text_induct)
  case (last l)
  then show ?case by (simp add: strip_blocks_last)
next
  case (line l ys)
  have "l \<noteq> js ''Host '' @ x" and "js ''Host '' @ x \<notin> set (text_lines ys)"
    using line(1,4) by (auto simp add: text_lines_line)
  moreover have "strip_blocks x ys = ys"
    using line(2) [of ys] line(3) \<open>js ''Host '' @ x \<notin> set (text_lines ys)\<close> by simp
  ultimately show ?case using line(1) by (simp add: strip_blocks_line)
qed

section \<open>Removing blocks from a trimmed text\<close>

lemma plain_hosts_head:
  "10 \<notin> set l \<Longrightarrow> plain_hosts x (l @ 10 # ys) \<Longrightarrow>
   trim l = js ''Host'' \<or> trim l = js ''Host '' @ x \<longrightarrow> trim l = l"
proof -
  assume n: "10 \<notin> set l" and p: "plain_hosts x (l @ 10 # ys)"
  have "l \<in> set (text_lines (l @ 10 # ys))" using n by (simp add: text_lines_line)
  then show ?thesis using p unfolding plain_hosts_def by blast
qed

lemma host_start_head: "host_start y \<Longrightarrow> y = [] \<or> \<not> isWhiteSpace (hd y)"
proof -
  assume "host_start y"
  then consider "y = []" | "prefix (js ''Host '') y" by (auto simp add: host_start_def)
  then show ?thesis
  proof cases
    case 1
    then show ?thesis by simp
  next
    case 2
    have "prefix (js ''Host'') (js ''Host '')" by (simp add: js_def)
    then have "prefix (js ''Host'') y" using 2 by (rule prefix_order.trans)
    then show ?thesis using host_head [of y] host_word by simp
  qed
qed

lemma skip_block_head: "skip_block ys = [] \<or> \<not> isWhiteSpace (hd (skip_block ys))"
  using skip_block_starts [of ys] by (intro host_start_head) (simp add: host_start_def)

lemma blank_skip_block: "blank ys \<Longrightarrow> skip_block ys = []"
proof (rule ccontr)
  assume b: "blank ys" and n: "skip_block ys \<noteq> []"
  have "set (skip_block ys) \<subseteq> set ys"
    using skip_block_suffix [of ys] by (rule set_mono_suffix)
  moreover have "hd (skip_block ys) \<in> set (skip_block ys)" using n by (rule hd_in_set)
  ultimately have "isWhiteSpace (hd (skip_block ys))"
    using b unfolding blank_def by blast
  then show False using skip_block_head [of ys] n by simp
qed

lemma blank_strip_blocks: "10 \<notin> set x \<Longrightarrow> blank s \<Longrightarrow> blank (strip_blocks x s)"
  using strip_blocks_set [of x s] by (auto simp add: blank_def)

text \<open>White space before the text does not change what is removed.\<close>

lemma trimStart_strip_blocks:
  assumes "word_text x"
  shows "plain_hosts x s \<Longrightarrow> trimStart (strip_blocks x s) = strip_blocks x (trimStart s)"
proof (induction s rule: text_induct)
  case (last l)
  have "10 \<notin> set (trimStart l)" using last(1) trimStart_set [of l] by blast
  then show ?case using last(1) by (simp add: strip_blocks_last)
next
  case (line l ys)
  note nx = word_text_no_newline [OF assms]
  have pys: "plain_hosts x ys" using line(1,3) by (rule plain_hosts_line)
  have ih: "trimStart (strip_blocks x ys) = strip_blocks x (trimStart ys)"
    using line(2) [of ys] pys by simp
  have pl: "trim l = js ''Host'' \<or> trim l = js ''Host '' @ x \<longrightarrow> trim l = l"
    using line(1,3) by (rule plain_hosts_head)
  show ?case
  proof (cases "blank l")
    case True
    then have "l \<noteq> js ''Host '' @ x" by (rule blank_not_header)
    then have "strip_blocks x (l @ 10 # ys) = l @ 10 # strip_blocks x ys"
      using line(1) by (simp add: strip_blocks_line)
    then show ?thesis using True ih by (simp add: trimStart_line)
  next
    case False
    show ?thesis
    proof (cases "l = js ''Host '' @ x")
      case True
      have t: "trimStart l = l" unfolding True by (intro trimStart_host host_space_prefix)
      have s: "strip_blocks x (l @ 10 # ys) = strip_blocks x (skip_block ys)"
        unfolding True using nx by (rule strip_blocks_header)
      have "strip_blocks x (skip_block ys) = []
            \<or> \<not> isWhiteSpace (hd (strip_blocks x (skip_block ys)))"
        using nx skip_block_head [of ys] by (rule strip_blocks_no_leading_space)
      then have "trimStart (strip_blocks x (skip_block ys)) = strip_blocks x (skip_block ys)"
        by (rule trimStart_id)
      then show ?thesis using s t False by (simp add: trimStart_line)
    next
      case neq: False
      have "trimStart l \<noteq> js ''Host '' @ x"
        using plain_trimStart [OF assms pl] neq by blast
      moreover have "10 \<notin> set (trimStart l)" using line(1) trimStart_set [of l] by blast
      ultimately have "strip_blocks x (trimStart l @ 10 # ys)
                         = trimStart l @ 10 # strip_blocks x ys"
        by (simp add: strip_blocks_line)
      moreover have "strip_blocks x (l @ 10 # ys) = l @ 10 # strip_blocks x ys"
        using line(1) neq by (simp add: strip_blocks_line)
      ultimately show ?thesis using False by (simp add: trimStart_line)
    qed
  qed
qed

text \<open>Where a block ends in a text that was trimmed at its end and separated again.\<close>

lemma skip_block_separator: "skip_block [10, 10] = []"
proof -
  have n: "\<not> prefix (js ''Host '') []" by (simp add: js_def)
  have "skip_block ([] @ 10 # [10]) = skip_block [10]"
    using n by (intro skip_block_line) simp_all
  moreover have "skip_block ([] @ 10 # []) = skip_block []"
    using n by (intro skip_block_line) simp_all
  ultimately show ?thesis by (simp add: skip_block_Nil)
qed

lemma skip_block_trimEnd:
  "terminated ys \<Longrightarrow> plain_hosts x ys \<Longrightarrow>
   skip_block (trimEnd ys @ [10, 10])
   = (if skip_block ys = [] then [] else trimEnd (skip_block ys) @ [10, 10])"
proof (induction ys rule: text_induct)
  case (last l)
  then have "l = []" by (simp add: terminated_last)
  then show ?case by (simp add: trimEnd_def skip_block_separator skip_block_Nil)
next
  case (line l ys)
  have tys: "terminated ys" using line(3) by (simp add: terminated_line)
  have pys: "plain_hosts x ys" using line(1,4) by (rule plain_hosts_line)
  have pl: "trim l = js ''Host'' \<longrightarrow> trim l = l"
    using plain_hosts_head [OF line(1,4)] by blast
  have ne: "10 \<notin> set (trimEnd l)" using line(1) trimEnd_set [of l] by blast
  show ?case
  proof (cases "prefix (js ''Host '') l")
    case True
    then have "prefix (js ''Host '') (l @ 10 # ys)" by (simp add: host_prefix_line)
    then have s: "skip_block (l @ 10 # ys) = l @ 10 # ys" by (rule skip_block_host)
    show ?thesis
    proof (cases "blank ys")
      case b: True
      have "prefix (js ''Host '') (trimEnd l)" using pl True by (rule plain_prefix)
      then have "prefix (js ''Host '') (trimEnd l @ [10, 10])" by (rule prefix_prefix)
      then have "skip_block (trimEnd l @ [10, 10]) = trimEnd l @ [10, 10]"
        by (rule skip_block_host)
      then show ?thesis using s b by (simp add: trimEnd_line)
    next
      case b: False
      have "prefix (js ''Host '') ((l @ 10 # trimEnd ys) @ [10, 10])"
        using True by (simp add: host_prefix_line)
      then have "skip_block ((l @ 10 # trimEnd ys) @ [10, 10]) = (l @ 10 # trimEnd ys) @ [10, 10]"
        by (rule skip_block_host)
      then show ?thesis using s b by (simp add: trimEnd_line)
    qed
  next
    case False
    then have s: "skip_block (l @ 10 # ys) = skip_block ys"
      using line(1) by (simp add: skip_block_line)
    show ?thesis
    proof (cases "blank ys")
      case b: True
      have "\<not> prefix (js ''Host '') (trimEnd l)"
        using False trimEnd_no_new_prefix [of l] by blast
      then have "skip_block (trimEnd l @ 10 # [10]) = skip_block [10]"
        using ne by (intro skip_block_line) simp_all
      moreover have "skip_block [10] = []" using blank_skip_block [of "[10]"] by simp
      moreover have "skip_block ys = []" using b by (rule blank_skip_block)
      ultimately show ?thesis using s b by (simp add: trimEnd_line)
    next
      case b: False
      have "skip_block (l @ 10 # (trimEnd ys @ [10, 10])) = skip_block (trimEnd ys @ [10, 10])"
        using False line(1) by (intro skip_block_line) simp_all
      moreover have "skip_block (trimEnd ys @ [10, 10])
           = (if skip_block ys = [] then [] else trimEnd (skip_block ys) @ [10, 10])"
        using line(2) [of ys] tys pys by simp
      ultimately show ?thesis using s b by (simp add: trimEnd_line)
    qed
  qed
qed

lemma strip_blocks_blank: "10 \<notin> set x \<Longrightarrow> blank s \<Longrightarrow> strip_blocks x s = s"
proof (induction s rule: text_induct)
  case (last l)
  then show ?case by (simp add: strip_blocks_last)
next
  case (line l ys)
  have "blank l" and b: "blank ys" using line(4) by simp_all
  then have "l \<noteq> js ''Host '' @ x" by (simp add: blank_not_header)
  moreover have "strip_blocks x ys = ys" using line(2) [of ys] line(3) b by simp
  ultimately show ?case using line(1) by (simp add: strip_blocks_line)
qed

text \<open>
  White space after the text does not change what is removed, up to the white space
  that ends the result.
\<close>

lemma trimEnd_strip_blocks:
  assumes "word_text x"
  shows "terminated s \<Longrightarrow> plain_hosts x s \<Longrightarrow> \<not> blank s \<Longrightarrow>
         trimEnd (strip_blocks x (trimEnd s @ [10, 10])) = trimEnd (strip_blocks x s)"
proof (induction s rule: text_induct)
  case (last l)
  then have "l = []" by (simp add: terminated_last)
  then show ?case using last by simp
next
  case (line l ys)
  note nx = word_text_no_newline [OF assms]
  have tys: "terminated ys" using line(3) by (simp add: terminated_line)
  have pys: "plain_hosts x ys" using line(1,4) by (rule plain_hosts_line)
  have pl: "trim l = js ''Host'' \<or> trim l = js ''Host '' @ x \<longrightarrow> trim l = l"
    using line(1,4) by (rule plain_hosts_head)
  have ne: "10 \<notin> set (trimEnd l)" using line(1) trimEnd_set [of l] by blast
  show ?case
  proof (cases "l = js ''Host '' @ x")
    case True
    have s: "strip_blocks x (l @ 10 # zs) = strip_blocks x (skip_block zs)" for zs
      unfolding True using nx by (rule strip_blocks_header)
    show ?thesis
    proof (cases "blank ys")
      case b: True
      have "trim l = js ''Host'' \<or> trim l = js ''Host '' @ x"
        unfolding True using trim_header [OF assms] by (cases "x = []") simp_all
      then have "trim l = l" using pl by blast
      then have "trimEnd l = l" by (simp add: trim_fixed)
      then have "trimEnd (l @ 10 # ys) @ [10, 10] = l @ 10 # [10]"
        using b by (simp add: trimEnd_line)
      moreover have "strip_blocks x (l @ 10 # [10]) = strip_blocks x (skip_block [10])"
        by (rule s)
      moreover have "skip_block [10] = []" using blank_skip_block [of "[10]"] by simp
      moreover have "skip_block ys = []" using b by (rule blank_skip_block)
      ultimately show ?thesis using s [of ys] by simp
    next
      case b: False
      have "trimEnd (l @ 10 # ys) @ [10, 10] = l @ 10 # (trimEnd ys @ [10, 10])"
        using b by (simp add: trimEnd_line)
      then have l1: "strip_blocks x (trimEnd (l @ 10 # ys) @ [10, 10])
                       = strip_blocks x (skip_block (trimEnd ys @ [10, 10]))"
        using s [of "trimEnd ys @ [10, 10]"] by simp
      have k: "skip_block (trimEnd ys @ [10, 10])
           = (if skip_block ys = [] then [] else trimEnd (skip_block ys) @ [10, 10])"
        using tys pys by (rule skip_block_trimEnd)
      show ?thesis
      proof (cases "skip_block ys = []")
        case True
        then show ?thesis using l1 k s [of ys] by simp
      next
        case False
        let ?z = "skip_block ys"
        have "length ?z \<le> length ys" by (rule length_skip_block)
        moreover have "terminated ?z" using tys by (rule terminated_skip_block)
        moreover have "plain_hosts x ?z"
          using pys skip_block_lines [of ys] by (rule plain_hosts_subset)
        moreover have "\<not> blank ?z"
          using False skip_block_head [of ys] by (cases ?z) (auto simp add: blank_def)
        ultimately have "trimEnd (strip_blocks x (trimEnd ?z @ [10, 10]))
                           = trimEnd (strip_blocks x ?z)"
          by (rule line(2))
        then show ?thesis using l1 k s [of ys] False by simp
      qed
    qed
  next
    case False
    have s: "strip_blocks x (l @ 10 # zs) = l @ 10 # strip_blocks x zs" for zs
      using line(1) False by (simp add: strip_blocks_line)
    show ?thesis
    proof (cases "blank ys")
      case b: True
      then have nb: "\<not> blank l" using line(5) by simp
      have "trimEnd l \<noteq> js ''Host '' @ x"
        using plain_trimEnd [OF assms pl] False by blast
      then have "strip_blocks x (trimEnd l @ 10 # [10]) = trimEnd l @ 10 # strip_blocks x [10]"
        using ne by (simp add: strip_blocks_line)
      moreover have "strip_blocks x [10] = [10]"
        using nx by (intro strip_blocks_blank) simp_all
      ultimately have "strip_blocks x (trimEnd (l @ 10 # ys) @ [10, 10]) = trimEnd l @ [10, 10]"
        using b by (simp add: trimEnd_line)
      then have "trimEnd (strip_blocks x (trimEnd (l @ 10 # ys) @ [10, 10])) = trimEnd (trimEnd l)"
        by (simp add: trimEnd_separator)
      moreover have "trimEnd (trimEnd l) = trimEnd l"
        using trimEnd_last [of l] by (rule trimEnd_id)
      moreover have "blank (strip_blocks x ys)" using nx b by (rule blank_strip_blocks)
      ultimately show ?thesis using s [of ys] by (simp add: trimEnd_line)
    next
      case b: False
      have "trimEnd (l @ 10 # ys) @ [10, 10] = l @ 10 # (trimEnd ys @ [10, 10])"
        using b by (simp add: trimEnd_line)
      then have l1: "strip_blocks x (trimEnd (l @ 10 # ys) @ [10, 10])
                       = l @ 10 # strip_blocks x (trimEnd ys @ [10, 10])"
        using s [of "trimEnd ys @ [10, 10]"] by simp
      have ih: "trimEnd (strip_blocks x (trimEnd ys @ [10, 10])) = trimEnd (strip_blocks x ys)"
        using line(2) [of ys] tys pys b by simp
      have "blank (strip_blocks x (trimEnd ys @ [10, 10])) = blank (strip_blocks x ys)"
        using ih by (simp add: trimEnd_blank [symmetric])
      then show ?thesis unfolding l1 s [of ys] using ih by (simp add: trimEnd_line)
    qed
  qed
qed

section \<open>What the three writes keep\<close>

lemma terminated_trimStart: "terminated s \<Longrightarrow> \<not> blank s \<Longrightarrow> terminated (trimStart s)"
proof -
  assume t: "terminated s" and b: "\<not> blank s"
  have n: "trimStart s \<noteq> []" using b by (simp add: trimStart_blank)
  obtain p where "s = p @ trimStart s" using trimStart_suffix [of s] by (auto simp add: suffix_def)
  then have "last s = last (trimStart s)" using n by (metis last_appendR)
  moreover have "s \<noteq> []" using b by auto
  ultimately show ?thesis using t n by (simp add: terminated_def)
qed

lemma header_not_trimmed_line:
  assumes "word_text x" and "plain_hosts x s" and "js ''Host '' @ x \<notin> set (text_lines s)"
  shows "js ''Host '' @ x \<notin> set (text_lines (trim s))"
proof
  assume h: "js ''Host '' @ x \<in> set (text_lines (trim s))"
  let ?r = "trimStart s"
  have pr: "plain_hosts x ?r" using assms(2) by (rule plain_hosts_trimStart)
  have "js ''Host '' @ x \<in> set (text_lines ?r)"
  proof -
    consider "js ''Host '' @ x \<in> set (text_lines ?r)"
      | l where "l \<in> set (text_lines ?r)" "js ''Host '' @ x = trimEnd l"
      using h text_lines_trimEnd [of ?r] unfolding trim_def by blast
    then show ?thesis
    proof cases
      case 1
      then show ?thesis .
    next
      case 2
      have "trim l = js ''Host'' \<or> trim l = js ''Host '' @ x \<longrightarrow> trim l = l"
        using pr 2(1) unfolding plain_hosts_def by blast
      then have "l = js ''Host '' @ x" using 2(2) [symmetric] by (rule plain_trimEnd [OF assms(1)])
      then show ?thesis using 2(1) by simp
    qed
  qed
  then consider "js ''Host '' @ x \<in> set (text_lines s)"
    | l where "l \<in> set (text_lines s)" "js ''Host '' @ x = trimStart l"
    using text_lines_trimStart [of s] by blast
  then show False
  proof cases
    case 1
    then show ?thesis using assms(3) by simp
  next
    case 2
    have "trim l = js ''Host'' \<or> trim l = js ''Host '' @ x \<longrightarrow> trim l = l"
      using assms(2) 2(1) unfolding plain_hosts_def by blast
    then have "l = js ''Host '' @ x" using 2(2) [symmetric] by (rule plain_trimStart [OF assms(1)])
    then show ?thesis using 2(1) assms(3) by simp
  qed
qed

text \<open>
  With plain \<open>Host\<close> lines, what the three writes keep is the old text without the
  blocks of the two aliases, up to white space at its ends.
\<close>

lemma kept_text_trim:
  assumes "terminated old" and "word_text a" and "word_text b"
    and "plain_hosts a old" and "plain_hosts b old"
  shows "trimEnd (kept_text a b old) = trim (strip_blocks b (strip_blocks a old))"
    and "kept_text a b old = [] \<or> \<not> isWhiteSpace (hd (kept_text a b old))"
proof -
  let ?s = "strip_blocks a old"
  let ?r = "trimStart ?s"
  let ?u = "trim ?s"
  let ?t = "strip_blocks b (?u @ [10, 10])"
  note na = word_text_no_newline [OF assms(2)]
  note nb = word_text_no_newline [OF assms(3)]
  have n: "js ''\<newline>\<newline>'' = [10, 10]" by (simp add: js_def)
  have ts: "terminated ?s" using na assms(1) by (rule strip_blocks_terminated)
  have ls: "set (text_lines ?s) \<subseteq> set (text_lines old) \<union> {[]}"
    using na by (rule strip_blocks_lines)
  have pas: "plain_hosts a ?s" using assms(4) ls by (rule plain_hosts_subset)
  have pbs: "plain_hosts b ?s" using assms(5) ls by (rule plain_hosts_subset)
  have nh: "js ''Host '' @ a \<notin> set (text_lines ?s)"
    using na assms(1) by (rule strip_blocks_no_header)
  have both: "trimEnd (kept_text a b old) = trim (strip_blocks b ?s)
              \<and> (kept_text a b old = [] \<or> \<not> isWhiteSpace (hd (kept_text a b old)))"
  proof (cases "?u = []")
    case True
    then have "blank ?s" by (simp add: trim_blank)
    with nb have "blank (strip_blocks b ?s)" by (rule blank_strip_blocks)
    then have "trim (strip_blocks b ?s) = []" by (simp add: trim_blank)
    moreover have "kept_text a b old = []" using True by (simp add: kept_text_def)
    ultimately show ?thesis by (simp add: trimEnd_def)
  next
    case False
    then have bs: "\<not> blank ?s" by (simp add: trim_blank)
    have tr: "terminated ?r" using ts bs by (rule terminated_trimStart)
    have pbr: "plain_hosts b ?r" using pbs by (rule plain_hosts_trimStart)
    have br: "\<not> blank ?r" using False by (simp add: trim_def trimEnd_blank)
    have "trimEnd (strip_blocks b (trimEnd ?r @ [10, 10])) = trimEnd (strip_blocks b ?r)"
      using assms(3) tr pbr br by (rule trimEnd_strip_blocks)
    moreover have "trimStart (strip_blocks b ?s) = strip_blocks b ?r"
      using assms(3) pbs by (rule trimStart_strip_blocks)
    ultimately have e: "trimEnd ?t = trim (strip_blocks b ?s)"
      by (simp add: trim_def)
    have "js ''Host '' @ a \<notin> set (text_lines ?u)"
      using assms(2) pas nh by (rule header_not_trimmed_line)
    moreover have "js ''Host '' @ a \<noteq> []" by (simp add: js_def)
    ultimately have "js ''Host '' @ a \<notin> set (text_lines (?u @ [10, 10])) \<union> {[]}"
      by (simp add: kept_text_lines_aux)
    then have "js ''Host '' @ a \<notin> set (text_lines ?t)"
      using strip_blocks_lines [OF nb, of "?u @ [10, 10]"] by blast
    with na have "strip_blocks a ?t = ?t" by (rule strip_blocks_id)
    then have k: "kept_text a b old = ?t" using False by (simp add: kept_text_def Let_def n)
    have "?u @ [10, 10] = [] \<or> \<not> isWhiteSpace (hd (?u @ [10, 10]))"
      using trim_head [of ?s] False by simp
    then have "?t = [] \<or> \<not> isWhiteSpace (hd ?t)"
      using nb by (intro strip_blocks_no_leading_space)
    then show ?thesis using e k by simp
  qed
  from both show "trimEnd (kept_text a b old) = trim (strip_blocks b (strip_blocks a old))"
    by blast
  from both show "kept_text a b old = [] \<or> \<not> isWhiteSpace (hd (kept_text a b old))"
    by blast
qed

lemma kept_text_shape:
  assumes "terminated old" and "word_text a" and "word_text b"
    and "plain_hosts a old" and "plain_hosts b old"
  shows "\<exists>w. blank w
          \<and> (trim (strip_blocks b (strip_blocks a old)) = [] \<longrightarrow> w = [])
          \<and> kept_text a b old = trim (strip_blocks b (strip_blocks a old)) @ w"
proof -
  let ?k = "kept_text a b old"
  note t = kept_text_trim [OF assms]
  obtain w where w: "blank w" "?k = trimEnd ?k @ w" using trimEnd_rest [of ?k] by blast
  have l: "length ?k = length (trimEnd ?k) + length w"
    using arg_cong [OF w(2), of length] by simp
  have e: "w = []" if "trimEnd ?k = []"
  proof -
    have "blank ?k" using that by (simp add: trimEnd_blank)
    then have "?k = []" using t(2) by (cases ?k) simp_all
    then show ?thesis using l by simp
  qed
  have k: "?k = trim (strip_blocks b (strip_blocks a old)) @ w"
    using w(2) unfolding t(1) .
  show ?thesis
  proof (intro exI [of _ w] conjI)
    show "blank w" by (rule w(1))
    show "trim (strip_blocks b (strip_blocks a old)) = [] \<longrightarrow> w = []"
      using e unfolding t(1) by blast
    show "?k = trim (strip_blocks b (strip_blocks a old)) @ w" by (rule k)
  qed
qed

section \<open>The rewrite of a block\<close>

text \<open>
  C2, amended. Let the old configuration have the newline character as its only line
  terminator and end with it (or be empty), and let none of its lines be \<open>Host\<close> or the
  \<open>Host\<close> line of one of the two aliases with white space added at its ends. Let the two
  aliases differ and hold neither white space nor a character of the pattern syntax, and
  let the hosts, users and key paths hold no line terminator. Then writing a block for the
  first alias, one for the second and again one for the first leaves: the old text
  without the blocks of the two aliases, trimmed; then white space only (none when
  nothing of the old text is left); then the block of the second alias as it was
  written, a blank line, and the latest block of the first alias. In this text exactly
  one line is \<open>Host\<close> with the first alias and exactly one is \<open>Host\<close> with the second.
\<close>

theorem writeHostConfig_rewrite:
  assumes "unix_text old" and "terminated old"
    and "plain_hosts a old" and "plain_hosts b old"
    and "a \<noteq> b"
    and "pattern_text a" and "pattern_text b" and "word_text a" and "word_text b"
    and "line_text h1" and "line_text u1" and "\<forall>k \<in> set k1. line_text k"
    and "line_text h2" and "line_text u2" and "\<forall>k \<in> set k2. line_text k"
    and "line_text h3" and "line_text u3" and "\<forall>k \<in> set k3. line_text k"
  shows "\<exists>w. blank w
          \<and> (trim (strip_blocks b (strip_blocks a old)) = [] \<longrightarrow> w = [])
          \<and> writeHostConfig k3 a h3 p3 u3
               (writeHostConfig k2 b h2 p2 u2 (writeHostConfig k1 a h1 p1 u1 (Some old)))
             = Some (trim (strip_blocks b (strip_blocks a old)) @ w
                     @ generateHostConfig k2 b h2 p2 u2 @ js ''\<newline>''
                     @ generateHostConfig k3 a h3 p3 u3)
          \<and> count_list
               (text_lines (trim (strip_blocks b (strip_blocks a old)) @ w
                            @ generateHostConfig k2 b h2 p2 u2 @ js ''\<newline>''
                            @ generateHostConfig k3 a h3 p3 u3))
               (js ''Host '' @ a) = 1
          \<and> count_list
               (text_lines (trim (strip_blocks b (strip_blocks a old)) @ w
                            @ generateHostConfig k2 b h2 p2 u2 @ js ''\<newline>''
                            @ generateHostConfig k3 a h3 p3 u3))
               (js ''Host '' @ b) = 1"
proof -
  note la = word_text_line [OF assms(8)] and lb = word_text_line [OF assms(9)]
  note t = three_writes [OF assms(1) assms(5) assms(6) assms(7) la lb assms(10-18),
      of p3 p2 p1]
  obtain w where w: "blank w"
    "trim (strip_blocks b (strip_blocks a old)) = [] \<longrightarrow> w = []"
    "kept_text a b old = trim (strip_blocks b (strip_blocks a old)) @ w"
    using kept_text_shape [OF assms(2) assms(8) assms(9) assms(3) assms(4)] by blast
  note t' = t [unfolded w(3) append_assoc]
  show ?thesis
  proof (intro exI [of _ w] conjI)
    show "blank w" by (rule w(1))
    show "trim (strip_blocks b (strip_blocks a old)) = [] \<longrightarrow> w = []" by (rule w(2))
    show "writeHostConfig k3 a h3 p3 u3
               (writeHostConfig k2 b h2 p2 u2 (writeHostConfig k1 a h1 p1 u1 (Some old)))
             = Some (trim (strip_blocks b (strip_blocks a old)) @ w
                     @ generateHostConfig k2 b h2 p2 u2 @ js ''\<newline>''
                     @ generateHostConfig k3 a h3 p3 u3)"
      using t' by (rule conjunct1)
    show "count_list
               (text_lines (trim (strip_blocks b (strip_blocks a old)) @ w
                            @ generateHostConfig k2 b h2 p2 u2 @ js ''\<newline>''
                            @ generateHostConfig k3 a h3 p3 u3))
               (js ''Host '' @ a) = 1"
      using t' [THEN conjunct2] by (rule conjunct1)
    show "count_list
               (text_lines (trim (strip_blocks b (strip_blocks a old)) @ w
                            @ generateHostConfig k2 b h2 p2 u2 @ js ''\<newline>''
                            @ generateHostConfig k3 a h3 p3 u3))
               (js ''Host '' @ b) = 1"
      using t' [THEN conjunct2, THEN conjunct2] by (rule conjunct1)
  qed
qed

lemma example_old_text:
  "unix_text (js ''# note\<newline>Host a\<newline>  HostName old\<newline>\<newline>Host c\<newline>  Port 1\<newline>'')"
  "terminated (js ''# note\<newline>Host a\<newline>  HostName old\<newline>\<newline>Host c\<newline>  Port 1\<newline>'')"
  "plain_hosts (js ''a'')
     (js ''# note\<newline>Host a\<newline>  HostName old\<newline>\<newline>Host c\<newline>  Port 1\<newline>'')"
  "plain_hosts (js ''b'')
     (js ''# note\<newline>Host a\<newline>  HostName old\<newline>\<newline>Host c\<newline>  Port 1\<newline>'')"
  by code_simp+

lemma example_rest_text:
  "trim (strip_blocks (js ''b'') (strip_blocks (js ''a'')
     (js ''# note\<newline>Host a\<newline>  HostName old\<newline>\<newline>Host c\<newline>  Port 1\<newline>'')))
   = js ''# note\<newline>Host c\<newline>  Port 1''"
  by code_simp

theorem writeHostConfig_rewrite_witness:
  "unix_text (js ''# note\<newline>Host a\<newline>  HostName old\<newline>\<newline>Host c\<newline>  Port 1\<newline>'')
   \<and> terminated (js ''# note\<newline>Host a\<newline>  HostName old\<newline>\<newline>Host c\<newline>  Port 1\<newline>'')
   \<and> plain_hosts (js ''a'')
        (js ''# note\<newline>Host a\<newline>  HostName old\<newline>\<newline>Host c\<newline>  Port 1\<newline>'')
   \<and> plain_hosts (js ''b'')
        (js ''# note\<newline>Host a\<newline>  HostName old\<newline>\<newline>Host c\<newline>  Port 1\<newline>'')
   \<and> js ''a'' \<noteq> js ''b''
   \<and> pattern_text (js ''a'') \<and> pattern_text (js ''b'')
   \<and> word_text (js ''a'') \<and> word_text (js ''b'')
   \<and> line_text (js ''h1'') \<and> line_text (js ''h2'') \<and> line_text (js ''h3'')
   \<and> line_text (js ''u'') \<and> line_text (js ''/u/.ssh/id_rsa'')
   \<and> (\<exists>w. blank w
         \<and> writeHostConfig [js ''/u/.ssh/id_rsa''] (js ''a'') (js ''h3'') 22 (js ''u'')
              (writeHostConfig [] (js ''b'') (js ''h2'') 2222 (js ''u'')
                (writeHostConfig [] (js ''a'') (js ''h1'') 22 (js ''u'')
                  (Some (js ''# note\<newline>Host a\<newline>  HostName old\<newline>\<newline>Host c\<newline>  Port 1\<newline>''))))
            = Some (js ''# note\<newline>Host c\<newline>  Port 1'' @ w
                    @ generateHostConfig [] (js ''b'') (js ''h2'') 2222 (js ''u'') @ js ''\<newline>''
                    @ generateHostConfig [js ''/u/.ssh/id_rsa''] (js ''a'') (js ''h3'') 22
                        (js ''u'')))"
proof -
  let ?old = "js ''# note\<newline>Host a\<newline>  HostName old\<newline>\<newline>Host c\<newline>  Port 1\<newline>''"
  have d: "js ''a'' \<noteq> js ''b''" by (simp add: js_def)
  have p: "pattern_text (js ''a'')" "pattern_text (js ''b'')"
    by (simp_all add: pattern_text_def js_def)
  have v: "word_text (js ''a'')" "word_text (js ''b'')"
    by (simp_all add: word_text_def js_def isWhiteSpace_def isLineTerminator_def)
  have l: "line_text (js ''h1'')" "line_text (js ''h2'')" "line_text (js ''h3'')"
    "line_text (js ''u'')" "line_text (js ''/u/.ssh/id_rsa'')"
    by (simp_all add: line_text_def js_def isLineTerminator_def)
  have k: "\<forall>k \<in> set []. line_text k" "\<forall>k \<in> set [js ''/u/.ssh/id_rsa'']. line_text k"
    using l(5) by simp_all
  obtain w where w: "blank w"
    "writeHostConfig [js ''/u/.ssh/id_rsa''] (js ''a'') (js ''h3'') 22 (js ''u'')
       (writeHostConfig [] (js ''b'') (js ''h2'') 2222 (js ''u'')
         (writeHostConfig [] (js ''a'') (js ''h1'') 22 (js ''u'') (Some ?old)))
     = Some (trim (strip_blocks (js ''b'') (strip_blocks (js ''a'') ?old)) @ w
             @ generateHostConfig [] (js ''b'') (js ''h2'') 2222 (js ''u'') @ js ''\<newline>''
             @ generateHostConfig [js ''/u/.ssh/id_rsa''] (js ''a'') (js ''h3'') 22 (js ''u''))"
    using writeHostConfig_rewrite
      [OF example_old_text d p v l(1) l(4) k(1) l(2) l(4) k(1) l(3) l(4) k(2), of 22 2222 22]
    by blast
  have "\<exists>w. blank w
         \<and> writeHostConfig [js ''/u/.ssh/id_rsa''] (js ''a'') (js ''h3'') 22 (js ''u'')
              (writeHostConfig [] (js ''b'') (js ''h2'') 2222 (js ''u'')
                (writeHostConfig [] (js ''a'') (js ''h1'') 22 (js ''u'') (Some ?old)))
            = Some (js ''# note\<newline>Host c\<newline>  Port 1'' @ w
                    @ generateHostConfig [] (js ''b'') (js ''h2'') 2222 (js ''u'') @ js ''\<newline>''
                    @ generateHostConfig [js ''/u/.ssh/id_rsa''] (js ''a'') (js ''h3'') 22
                        (js ''u''))"
    using w unfolding example_rest_text by blast
  then show ?thesis using example_old_text d p v l by blast
qed

text \<open>
  The conditions on the old text and on the aliases are needed. An indented \<open>Host\<close> line
  of the second alias begins no block, but the first write trims it into one, which the
  second write removes with the lines after it:
\<close>

lemma writeHostConfig_padded_host_example:
  "strip_blocks (js ''b'') (strip_blocks (js ''a'') (js '' Host b\<newline>  foo\<newline>''))
     = js '' Host b\<newline>  foo\<newline>''
   \<and> writeHostConfig [] (js ''a'') (js ''h3'') 22 (js ''u'')
       (writeHostConfig [] (js ''b'') (js ''h2'') 22 (js ''u'')
         (writeHostConfig [] (js ''a'') (js ''h1'') 22 (js ''u'')
           (Some (js '' Host b\<newline>  foo\<newline>''))))
     = Some (generateHostConfig [] (js ''b'') (js ''h2'') 22 (js ''u'') @ js ''\<newline>''
             @ generateHostConfig [] (js ''a'') (js ''h3'') 22 (js ''u''))"
  by code_simp

text \<open>
  A last line \<open>Host\<close> with the first alias and no newline is no match of the pattern at
  the first write and is one at the third, after the writes have put lines behind it:
\<close>

lemma writeHostConfig_unterminated_example:
  "strip_blocks (js ''b'') (strip_blocks (js ''a'') (js ''foo\<newline>Host a'')) = js ''foo\<newline>Host a''
   \<and> writeHostConfig [] (js ''a'') (js ''h3'') 22 (js ''u'')
       (writeHostConfig [] (js ''b'') (js ''h2'') 22 (js ''u'')
         (writeHostConfig [] (js ''a'') (js ''h1'') 22 (js ''u'') (Some (js ''foo\<newline>Host a''))))
     = Some (js ''foo\<newline>''
             @ generateHostConfig [] (js ''b'') (js ''h2'') 22 (js ''u'') @ js ''\<newline>''
             @ generateHostConfig [] (js ''a'') (js ''h3'') 22 (js ''u''))"
  by code_simp

text \<open>
  A dot in the first alias stands for any character in its pattern, so the third write
  takes the block of a second alias that differs from the first at the dot only:
\<close>

lemma writeHostConfig_dot_alias_example:
  "writeHostConfig [] (js ''a.b'') (js ''h3'') 22 (js ''u'')
     (writeHostConfig [] (js ''aXb'') (js ''h2'') 22 (js ''u'')
       (writeHostConfig [] (js ''a.b'') (js ''h1'') 22 (js ''u'') (Some (js ''# note\<newline>''))))
   = Some (js ''# note\<newline>\<newline>'' @ generateHostConfig [] (js ''a.b'') (js ''h3'') 22 (js ''u''))"
  by code_simp

text \<open>
  A line \<open>Host\<close> followed by white space ends a block; trimmed at the end of the text it
  does not, and the block of the second alias before it takes it along:
\<close>

lemma writeHostConfig_host_word_example:
  "trim (strip_blocks (js ''b'') (strip_blocks (js ''a'') (js ''Host b\<newline>  x\<newline>Host \<newline>'')))
     = js ''Host''
   \<and> writeHostConfig [] (js ''a'') (js ''h3'') 22 (js ''u'')
       (writeHostConfig [] (js ''b'') (js ''h2'') 22 (js ''u'')
         (writeHostConfig [] (js ''a'') (js ''h1'') 22 (js ''u'')
           (Some (js ''Host b\<newline>  x\<newline>Host \<newline>''))))
     = Some (generateHostConfig [] (js ''b'') (js ''h2'') 22 (js ''u'') @ js ''\<newline>''
             @ generateHostConfig [] (js ''a'') (js ''h3'') 22 (js ''u''))"
  by code_simp

text \<open>
  An alias that ends with a space: an indented line with it is plain, and trimming the
  text makes it the \<open>Host\<close> line of the alias, which the third write removes with the
  lines after it:
\<close>

lemma writeHostConfig_spaced_alias_example:
  "plain_hosts (js ''a '') (js ''  Host a \<newline>  foo\<newline>bar\<newline>'')
   \<and> strip_blocks (js ''b'') (strip_blocks (js ''a '') (js ''  Host a \<newline>  foo\<newline>bar\<newline>''))
     = js ''  Host a \<newline>  foo\<newline>bar\<newline>''
   \<and> writeHostConfig [] (js ''a '') (js ''h3'') 22 (js ''u'')
       (writeHostConfig [] (js ''b'') (js ''h2'') 22 (js ''u'')
         (writeHostConfig [] (js ''a '') (js ''h1'') 22 (js ''u'')
           (Some (js ''  Host a \<newline>  foo\<newline>bar\<newline>''))))
     = Some (generateHostConfig [] (js ''b'') (js ''h2'') 22 (js ''u'') @ js ''\<newline>''
             @ generateHostConfig [] (js ''a '') (js ''h3'') 22 (js ''u''))"
  by code_simp

text \<open>
  A carriage return ends a line for \<^verbatim>\<open>^\<close> and stops \<^verbatim>\<open>.\<close>, so a match of the pattern ends
  before it, and what follows can become a block of the alias when the text is trimmed at
  the next write. Here the three writes end with two blocks of the first alias:
\<close>

lemma writeHostConfig_carriage_return_example:
  "writeHostConfig [] (js ''a'') (js ''h3'') 22 (js ''u'')
     (writeHostConfig [] (js ''b'') (js ''h2'') 22 (js ''u'')
       (writeHostConfig [] (js ''a'') (js ''h1'') 22 (js ''u'')
         (Some (js ''Host b\<newline>'' @ [13] @ js '' Host a\<newline>'' @ [13]
                @ js '' Host a\<newline>foo\<newline>''))))
   = Some (js ''Host a\<newline>foo\<newline>\<newline>''
           @ generateHostConfig [] (js ''b'') (js ''h2'') 22 (js ''u'') @ js ''\<newline>''
           @ generateHostConfig [] (js ''a'') (js ''h3'') 22 (js ''u''))"
  by code_simp

section \<open>Dispatch\<close>

lemma reserved_cases:
  "x \<in> set RESERVED_COMMANDS \<longleftrightarrow>
     x \<in> {js ''connect'', js ''disconnect'', js ''status'', js ''help''}
     \<or> x \<in> {js ''--help'', js ''-h'', js ''--version'', js ''-V''}"
  unfolding RESERVED_COMMANDS_def by auto

lemma reserved_flags_prefix:
  "x \<in> {js ''--help'', js ''-h'', js ''--version'', js ''-V''} \<Longrightarrow> prefix (js ''-'') x"
  by (auto simp add: js_def)

lemma reserved_words_not_escape:
  "x \<in> {js ''connect'', js ''disconnect'', js ''status'', js ''help''} \<Longrightarrow> x \<noteq> js ''--''"
  by (auto simp add: js_def)

lemma escape_is_flag: "prefix (js ''-'') (js ''--'')"
  by (simp add: js_def)

text \<open>
  C9, as the specification states it, fails: \<open>help\<close> is none of connect, disconnect and
  status and is no flag, yet with a stored connection it is handed to the subcommand
  parser and not run on the remote side.
\<close>

theorem main_help_counterexample:
  "js ''help'' \<notin> {js ''connect'', js ''disconnect'', js ''status''}
   \<and> \<not> prefix (js ''-'') (js ''help'')
   \<and> main (Some example_connection) [js ''help''] = ParseProgram [js ''help'']
   \<and> main (Some example_connection) [js ''help'']
       \<noteq> handleRemoteCommand (Some example_connection) [js ''help'']"
  by (simp add: main_def handleRemoteCommand_def example_connection_def RESERVED_COMMANDS_def
      js_def)

text \<open>
  C9, amended. With no argument the help is shown. The words connect, disconnect, status
  and help go to the subcommand parser, and so do every first argument that starts with
  \<open>-\<close>, except \<open>--\<close> itself (the flags \<open>--help\<close>, \<open>-h\<close>, \<open>--version\<close> and \<open>-V\<close> among them), and
  an empty first argument. Every other first argument is forwarded with all the
  arguments unchanged, and \<open>--\<close> as first argument forwards the arguments after it,
  whatever the first of them is. Forwarding runs the arguments on the remote side as
  they are when a connection with an alias is stored, and ends with an error otherwise.
\<close>

theorem main_dispatch:
  "main found [] = ShowHelp
   \<and> main found (js ''--'' # rest) = handleRemoteCommand found rest
   \<and> (firstArg \<noteq> [] \<and> firstArg \<notin> {js ''connect'', js ''disconnect'', js ''status'', js ''help''}
        \<and> \<not> prefix (js ''-'') firstArg
        \<longrightarrow> main found (firstArg # rest) = handleRemoteCommand found (firstArg # rest))
   \<and> (firstArg \<in> {js ''connect'', js ''disconnect'', js ''status'', js ''help''}
        \<longrightarrow> main found (firstArg # rest) = ParseProgram (firstArg # rest))
   \<and> (prefix (js ''-'') firstArg \<and> firstArg \<noteq> js ''--''
        \<longrightarrow> main found (firstArg # rest) = ParseProgram (firstArg # rest))
   \<and> main found ([] # rest) = ParseProgram ([] # rest)
   \<and> (config_sshAlias (found_config f) = Some alias \<and> alias \<noteq> [] \<longrightarrow>
        handleRemoteCommand (Some f) args
          = RunRemote alias (found_config f) (found_localPath f) args)
   \<and> (config_sshAlias (found_config f) = None \<or> config_sshAlias (found_config f) = Some [] \<longrightarrow>
        handleRemoteCommand (Some f) args
          = ExitError (js ''Invalid connection state. Try reconnecting.''))
   \<and> handleRemoteCommand None args
       = ExitError (js ''Not connected. Run 'haven connect <path>' first.'')"
proof -
  have h: "main found [] = ShowHelp"
    by (simp add: main_def)
  have a: "main found (js ''--'' # rest) = handleRemoteCommand found rest"
    by (simp add: main_def)
  have b: "main found (firstArg # rest) = handleRemoteCommand found (firstArg # rest)"
    if n: "firstArg \<noteq> []"
      and r: "firstArg \<notin> {js ''connect'', js ''disconnect'', js ''status'', js ''help''}"
      and f: "\<not> prefix (js ''-'') firstArg"
  proof -
    have "firstArg \<notin> set RESERVED_COMMANDS"
      using r f reserved_flags_prefix [of firstArg] unfolding reserved_cases by blast
    moreover have "firstArg \<noteq> js ''--''"
      using f escape_is_flag by metis
    ultimately show ?thesis
      using n f unfolding main_def by simp
  qed
  have c: "main found (firstArg # rest) = ParseProgram (firstArg # rest)"
    if r: "firstArg \<in> {js ''connect'', js ''disconnect'', js ''status'', js ''help''}"
  proof -
    have "firstArg \<in> set RESERVED_COMMANDS"
      using r unfolding reserved_cases by blast
    moreover have "firstArg \<noteq> js ''--''"
      using r by (rule reserved_words_not_escape)
    ultimately show ?thesis
      unfolding main_def by simp
  qed
  have g: "main found (firstArg # rest) = ParseProgram (firstArg # rest)"
    if "prefix (js ''-'') firstArg" and "firstArg \<noteq> js ''--''"
    using that unfolding main_def by simp
  have e: "main found ([] # rest) = ParseProgram ([] # rest)"
    unfolding main_def by (simp add: js_def)
  have d: "handleRemoteCommand (Some f) args
          = RunRemote alias (found_config f) (found_localPath f) args"
    if "config_sshAlias (found_config f) = Some alias" and "alias \<noteq> []"
    using that by (simp add: handleRemoteCommand_def)
  have i: "handleRemoteCommand (Some f) args
          = ExitError (js ''Invalid connection state. Try reconnecting.'')"
    if "config_sshAlias (found_config f) = None \<or> config_sshAlias (found_config f) = Some []"
    using that by (auto simp add: handleRemoteCommand_def)
  have j: "handleRemoteCommand None args
       = ExitError (js ''Not connected. Run 'haven connect <path>' first.'')"
    by (simp add: handleRemoteCommand_def)
  from h a b c g e d i j show ?thesis by blast
qed

theorem main_dispatch_witness:
  "js ''ls'' \<noteq> []
   \<and> js ''ls'' \<notin> {js ''connect'', js ''disconnect'', js ''status'', js ''help''}
   \<and> \<not> prefix (js ''-'') (js ''ls'')
   \<and> config_sshAlias (found_config example_connection) = Some (js ''haven-dev'')
   \<and> js ''haven-dev'' \<noteq> []
   \<and> main (Some example_connection) [js ''ls'', js ''-la'']
       = RunRemote (js ''haven-dev'') (found_config example_connection) (js ''/tmp/p'')
           [js ''ls'', js ''-la'']
   \<and> main (Some example_connection) [js ''--'', js ''status'']
       = RunRemote (js ''haven-dev'') (found_config example_connection) (js ''/tmp/p'')
           [js ''status'']
   \<and> js ''status'' \<in> {js ''connect'', js ''disconnect'', js ''status'', js ''help''}
   \<and> main None [js ''status'', js ''--json''] = ParseProgram [js ''status'', js ''--json'']
   \<and> prefix (js ''-'') (js ''--version'') \<and> js ''--version'' \<noteq> js ''--''
   \<and> main (Some example_connection) [js ''--version''] = ParseProgram [js ''--version'']
   \<and> main None [js ''ls'']
       = ExitError (js ''Not connected. Run 'haven connect <path>' first.'')"
proof -
  have n: "js ''ls'' \<noteq> []"
    and r: "js ''ls'' \<notin> {js ''connect'', js ''disconnect'', js ''status'', js ''help''}"
    and f: "\<not> prefix (js ''-'') (js ''ls'')"
    and s: "js ''status'' \<in> {js ''connect'', js ''disconnect'', js ''status'', js ''help''}"
    and h: "js ''haven-dev'' \<noteq> []"
    and v: "prefix (js ''-'') (js ''--version'')"
    and w: "js ''--version'' \<noteq> js ''--''"
    by (simp_all add: js_def)
  have al: "config_sshAlias (found_config example_connection) = Some (js ''haven-dev'')"
    and lp: "found_localPath example_connection = js ''/tmp/p''"
    by (simp_all add: example_connection_def)
  have 1: "main (Some example_connection) [js ''ls'', js ''-la'']
       = RunRemote (js ''haven-dev'') (found_config example_connection) (js ''/tmp/p'')
           [js ''ls'', js ''-la'']"
    using main_dispatch [of "Some example_connection" "[js ''-la'']" "js ''ls''"
        example_connection "js ''haven-dev''" "[js ''ls'', js ''-la'']"] n r f h al lp
    by simp
  have 2: "main (Some example_connection) [js ''--'', js ''status'']
       = RunRemote (js ''haven-dev'') (found_config example_connection) (js ''/tmp/p'')
           [js ''status'']"
    using main_dispatch [of "Some example_connection" "[js ''status'']" "js ''ls''"
        example_connection "js ''haven-dev''" "[js ''status'']"] h al lp
    by simp
  have 3: "main None [js ''status'', js ''--json''] = ParseProgram [js ''status'', js ''--json'']"
    using main_dispatch [of None "[js ''--json'']" "js ''status''"] s by simp
  have 4: "main (Some example_connection) [js ''--version''] = ParseProgram [js ''--version'']"
    using main_dispatch [of "Some example_connection" "[]" "js ''--version''"] v w by simp
  have 5: "main None [js ''ls'']
       = ExitError (js ''Not connected. Run 'haven connect <path>' first.'')"
    using main_dispatch [of None "[]" "js ''ls''" example_connection "js ''haven-dev''"
        "[js ''ls'']"] n r f
    by simp
  from n r f s h v w al 1 2 3 4 5 show ?thesis by blast
qed

end
